theory Spec2Isabelle
  imports Complex_Main "HOL-Library.Sublist" "HOL-Library.Multiset" "HOL-Library.Word"
begin

section \<open>Mesh tables\<close>

text \<open>
  The detectors receive a vertex table (rows of three coordinates) and a face table (rows of
  three signed vertex indices). Coordinates are \<open>float\<close> or \<open>double\<close> in the sources;
  the embedding idealises both as \<open>real\<close>, so every statement below is about the control
  flow and the exact arithmetic of the formulas, not about rounding. The elapsed wall-clock
  time that every operation returns next to its result is left out.

  The sources read the numpy buffers without bounds checks (\<open>unchecked<2>()\<close> or raw
  pointers). A read outside the table is undefined behaviour in C++; the embedding makes it
  the value \<open>None\<close>.
\<close>

type_synonym vertex_row = "real \<times> real \<times> real"
type_synonym face_row = "int \<times> int \<times> int"

definition vertex_at :: "vertex_row list \<Rightarrow> int \<Rightarrow> vertex_row option" where
  "vertex_at V i = (if 0 \<le> i \<and> i < int (length V) then Some (V ! nat i) else None)"

definition valid_face :: "vertex_row list \<Rightarrow> face_row \<Rightarrow> bool" where
  "valid_face V f = (case f of (a, b, c) \<Rightarrow>
     0 \<le> a \<and> a < int (length V) \<and> 0 \<le> b \<and> b < int (length V) \<and> 0 \<le> c \<and> c < int (length V))"

definition valid_mesh :: "vertex_row list \<Rightarrow> face_row list \<Rightarrow> bool" where
  "valid_mesh V F = list_all (valid_face V) F"

section \<open>Face quality (face\_quality\_detector.cpp)\<close>

text \<open>\<open>calculate_face_quality\<close>: the three side lengths, Heron's area, and \<open>2 r / R\<close>
  clamped by \<open>std::min(1, std::max(0, _))\<close>.\<close>

definition side_length :: "vertex_row \<Rightarrow> vertex_row \<Rightarrow> real" where
  "side_length p q = (case p of (px, py, pz) \<Rightarrow> case q of (qx, qy, qz) \<Rightarrow>
     sqrt ((px - qx)\<^sup>2 + (py - qy)\<^sup>2 + (pz - qz)\<^sup>2))"

definition heron_area :: "real \<Rightarrow> real \<Rightarrow> real \<Rightarrow> real" where
  "heron_area a b c = (let s = (a + b + c) / 2 in sqrt (max 0 (s * (s - a) * (s - b) * (s - c))))"

definition calculate_face_quality :: "vertex_row \<Rightarrow> vertex_row \<Rightarrow> vertex_row \<Rightarrow> real" where
  "calculate_face_quality v1 v2 v3 =
     (let a = side_length v2 v3;
          b = side_length v1 v3;
          c = side_length v1 v2;
          s = (a + b + c) / 2;
          area = sqrt (max 0 (s * (s - a) * (s - b) * (s - c)))
      in if area < 1 / 10 ^ 10 then 0
         else let r = area / s;
                  R = (a * b * c) / (4 * area)
              in min 1 (max 0 (2 * (r / R))))"

text \<open>The histogram is an \<open>unordered_map<string, int>\<close> with ten keys set to zero before
  the loop; the \<open>if\<close>/\<open>else if\<close> chain picks the key to increment.\<close>

definition quality_labels :: "string list" where
  "quality_labels = [''0.0-0.1'', ''0.1-0.2'', ''0.2-0.3'', ''0.3-0.4'', ''0.4-0.5'',
                     ''0.5-0.6'', ''0.6-0.7'', ''0.7-0.8'', ''0.8-0.9'', ''0.9-1.0'']"

definition quality_bin :: "real \<Rightarrow> string" where
  "quality_bin q =
     (if q < 0.1 then ''0.0-0.1''
      else if q < 0.2 then ''0.1-0.2''
      else if q < 0.3 then ''0.2-0.3''
      else if q < 0.4 then ''0.3-0.4''
      else if q < 0.5 then ''0.4-0.5''
      else if q < 0.6 then ''0.5-0.6''
      else if q < 0.7 then ''0.6-0.7''
      else if q < 0.8 then ''0.7-0.8''
      else if q < 0.9 then ''0.8-0.9''
      else ''0.9-1.0'')"

definition initial_distribution :: "string \<rightharpoonup> int" where
  "initial_distribution = map_of (map (\<lambda>l. (l, 0)) quality_labels)"

definition bump_bin :: "(string \<rightharpoonup> int) \<Rightarrow> string \<Rightarrow> (string \<rightharpoonup> int)" where
  "bump_bin d l = d(l \<mapsto> (case d l of None \<Rightarrow> 0 | Some c \<Rightarrow> c) + 1)"

record quality_loop_state =
  low_quality_faces :: "int list"
  quality_values :: "real list"
  quality_distribution :: "string \<rightharpoonup> int"

definition face_quality_of :: "vertex_row list \<Rightarrow> face_row \<Rightarrow> real option" where
  "face_quality_of V f = (case f of (i1, i2, i3) \<Rightarrow>
     (case vertex_at V i1 of None \<Rightarrow> None | Some v1 \<Rightarrow>
     (case vertex_at V i2 of None \<Rightarrow> None | Some v2 \<Rightarrow>
     (case vertex_at V i3 of None \<Rightarrow> None | Some v3 \<Rightarrow>
        Some (calculate_face_quality v1 v2 v3)))))"

text \<open>The loop over the faces, from face number \<open>i\<close> on.\<close>

fun quality_loop ::
  "vertex_row list \<Rightarrow> real \<Rightarrow> int \<Rightarrow> face_row list \<Rightarrow> quality_loop_state \<Rightarrow> quality_loop_state option"
where
  "quality_loop V threshold i [] st = Some st"
| "quality_loop V threshold i (f # fs) st =
     (case face_quality_of V f of
        None \<Rightarrow> None
      | Some quality \<Rightarrow>
          quality_loop V threshold (i + 1) fs
            \<lparr> low_quality_faces =
                 (if quality < threshold then low_quality_faces st @ [i] else low_quality_faces st),
               quality_values = quality_values st @ [quality],
               quality_distribution = bump_bin (quality_distribution st) (quality_bin quality) \<rparr>)"

record quality_stats =
  total_faces :: nat
  stats_low_quality_faces :: "int list"
  min_quality :: real
  max_quality :: real
  avg_quality :: real
  stats_quality_distribution :: "string \<rightharpoonup> int"

definition analyze_face_quality_with_timing ::
  "vertex_row list \<Rightarrow> face_row list \<Rightarrow> real \<Rightarrow> (int list \<times> quality_stats) option"
where
  "analyze_face_quality_with_timing V F threshold =
     (case quality_loop V threshold 0 F
             \<lparr> low_quality_faces = [], quality_values = [],
               quality_distribution = initial_distribution \<rparr> of
        None \<Rightarrow> None
      | Some st \<Rightarrow>
          let qs = quality_values st in
          Some (low_quality_faces st,
                \<lparr> total_faces = length F,
                  stats_low_quality_faces = low_quality_faces st,
                  min_quality = (if qs = [] then 1 else Min (set qs)),
                  max_quality = (if qs = [] then 0 else Max (set qs)),
                  avg_quality = (if qs = [] then 0 else sum_list qs / real (length qs)),
                  stats_quality_distribution = quality_distribution st \<rparr>))"

definition histogram_total :: "(string \<rightharpoonup> int) \<Rightarrow> int" where
  "histogram_total d = sum_list (map (\<lambda>l. case d l of None \<Rightarrow> 0 | Some c \<Rightarrow> c) quality_labels)"

section \<open>Hash containers\<close>

text \<open>
  \<open>std::unordered_map<K, std::vector<V>>\<close> used as \<open>m[key].push_back(v)\<close>: a table of
  buckets, each holding the key it was created with and the values appended to it. The probe
  looks for a stored key that the table's key equality accepts; when there is none a new bucket
  is created. The table lists the buckets in order of creation. The iteration order of an
  unordered container is unspecified in C++: the non-manifold detector is embedded as iterating
  in order of creation, the overlapping-edge detector, whose output is built entry by entry
  from the iteration, gives its output as a multiset.
\<close>

fun bucket_append :: "('k \<Rightarrow> 'k \<Rightarrow> bool) \<Rightarrow> 'k \<Rightarrow> 'v \<Rightarrow> ('k \<times> 'v list) list \<Rightarrow> ('k \<times> 'v list) list"
where
  "bucket_append eq k v [] = [(k, [v])]"
| "bucket_append eq k v ((k', vs) # rest) =
     (if eq k' k then (k', vs @ [v]) # rest else (k', vs) # bucket_append eq k v rest)"

text \<open>\<open>std::unordered_map<int, int>\<close> used as \<open>m[key]++\<close>.\<close>

fun count_incr :: "int \<Rightarrow> (int \<times> int) list \<Rightarrow> (int \<times> int) list" where
  "count_incr k [] = [(k, 1)]"
| "count_incr k ((k', c) # rest) =
     (if k' = k then (k', c + 1) # rest else (k', c) # count_incr k rest)"

section \<open>Non-manifold vertices (non\_manifold\_vertices\_detector.cpp)\<close>

type_synonym Edge = "int \<times> int"

definition EdgeEqual :: "Edge \<Rightarrow> Edge \<Rightarrow> bool" where
  "EdgeEqual e1 e2 = (fst e1 = fst e2 \<and> snd e1 = snd e2)"

text \<open>Step 1: the three canonical edges of a face, \<open>(f[i], f[(i + 1) % 3])\<close> for
  \<open>i = 0, 1, 2\<close>, each appended with the face index.\<close>

definition canonical_edges :: "face_row \<Rightarrow> Edge list" where
  "canonical_edges f = (case f of (a, b, c) \<Rightarrow>
     [(min a b, max a b), (min b c, max b c), (min c a, max c a)])"

fun collect_edges :: "int \<Rightarrow> face_row list \<Rightarrow> (Edge \<times> int list) list \<Rightarrow> (Edge \<times> int list) list"
where
  "collect_edges face_idx [] edges = edges"
| "collect_edges face_idx (f # fs) edges =
     collect_edges (face_idx + 1) fs
       (fold (\<lambda>e m. bucket_append EdgeEqual e face_idx m) (canonical_edges f) edges)"

text \<open>Step 2: the edges with exactly one incident face. Step 3: the number of free edges
  at each vertex. Step 4: the vertices with four or more.\<close>

definition free_edges_of :: "(Edge \<times> int list) list \<Rightarrow> Edge list" where
  "free_edges_of edges = map fst (filter (\<lambda>p. length (snd p) = 1) edges)"

definition vertex_free_edge_count :: "Edge list \<Rightarrow> (int \<times> int) list" where
  "vertex_free_edge_count free_edges =
     fold (\<lambda>edge m. count_incr (snd edge) (count_incr (fst edge) m)) free_edges []"

definition detect_non_manifold_vertices_with_timing ::
  "vertex_row list \<Rightarrow> face_row list \<Rightarrow> real \<Rightarrow> int list"
where
  "detect_non_manifold_vertices_with_timing V F tolerance =
     (let edges = collect_edges 0 F [];
          free_edges = free_edges_of edges;
          counts = vertex_free_edge_count free_edges
      in map fst (filter (\<lambda>p. snd p \<ge> 4) counts))"

section \<open>Geometry primitives (pierced\_faces\_detector.cpp)\<close>

definition EPSILON :: real where
  "EPSILON = 1 / 10 ^ 10"

definition ALMOST_ZERO :: real where
  "ALMOST_ZERO = 1 / 10 ^ 8"

datatype Vector3d = Vector3d (vx: real) (vy: real) (vz: real)

definition Zero :: Vector3d where
  "Zero = Vector3d 0 0 0"

definition vec_add :: "Vector3d \<Rightarrow> Vector3d \<Rightarrow> Vector3d" where
  "vec_add a b = Vector3d (vx a + vx b) (vy a + vy b) (vz a + vz b)"

definition vec_sub :: "Vector3d \<Rightarrow> Vector3d \<Rightarrow> Vector3d" where
  "vec_sub a b = Vector3d (vx a - vx b) (vy a - vy b) (vz a - vz b)"

definition vec_div :: "Vector3d \<Rightarrow> real \<Rightarrow> Vector3d" where
  "vec_div a scalar =
     (if \<bar>scalar\<bar> < ALMOST_ZERO then Zero
      else Vector3d (vx a / scalar) (vy a / scalar) (vz a / scalar))"

definition dot :: "Vector3d \<Rightarrow> Vector3d \<Rightarrow> real" where
  "dot a b = vx a * vx b + vy a * vy b + vz a * vz b"

definition cross :: "Vector3d \<Rightarrow> Vector3d \<Rightarrow> Vector3d" where
  "cross a b = Vector3d (vy a * vz b - vz a * vy b)
                        (vz a * vx b - vx a * vz b)
                        (vx a * vy b - vy a * vx b)"

definition norm3d :: "Vector3d \<Rightarrow> real" where
  "norm3d a = sqrt (vx a * vx a + vy a * vy a + vz a * vz a)"

definition normalized :: "Vector3d \<Rightarrow> Vector3d" where
  "normalized a = (let length = norm3d a in
     if length < ALMOST_ZERO then Zero else vec_div a length)"

text \<open>\<open>isZero\<close> is only ever called with its default \<open>eps = ALMOST_ZERO\<close>; it tests the three
  components one by one, not the norm.\<close>

definition isZero :: "Vector3d \<Rightarrow> bool" where
  "isZero a = (\<bar>vx a\<bar> < ALMOST_ZERO \<and> \<bar>vy a\<bar> < ALMOST_ZERO \<and> \<bar>vz a\<bar> < ALMOST_ZERO)"

datatype Triangle = Triangle (tv0: Vector3d) (tv1: Vector3d) (tv2: Vector3d)

definition vertices :: "Triangle \<Rightarrow> Vector3d list" where
  "vertices tri = [tv0 tri, tv1 tri, tv2 tri]"

datatype AABB = AABB (bmin: Vector3d) (bmax: Vector3d)

definition intersects :: "AABB \<Rightarrow> AABB \<Rightarrow> bool" where
  "intersects a other =
     (vx (bmin a) \<le> vx (bmax other) \<and> vx (bmax a) \<ge> vx (bmin other) \<and>
      vy (bmin a) \<le> vy (bmax other) \<and> vy (bmax a) \<ge> vy (bmin other) \<and>
      vz (bmin a) \<le> vz (bmax other) \<and> vz (bmax a) \<ge> vz (bmin other))"

text \<open>The cross product of the two edges at vertex 0, before \<open>get_normal\<close> normalises it.\<close>

definition raw_normal :: "Triangle \<Rightarrow> Vector3d" where
  "raw_normal tri = cross (vec_sub (tv1 tri) (tv0 tri)) (vec_sub (tv2 tri) (tv0 tri))"

definition get_normal :: "Triangle \<Rightarrow> Vector3d" where
  "get_normal tri = (let normal = raw_normal tri; norm = norm3d normal in
     if norm < ALMOST_ZERO then Zero else vec_div normal norm)"

definition get_edges :: "Triangle \<Rightarrow> Vector3d list" where
  "get_edges tri = [vec_sub (tv1 tri) (tv0 tri), vec_sub (tv2 tri) (tv1 tri),
                    vec_sub (tv0 tri) (tv2 tri)]"

definition project_triangle :: "Triangle \<Rightarrow> Vector3d \<Rightarrow> real \<times> real" where
  "project_triangle tri axis =
     (let p0 = dot axis (tv0 tri); p1 = dot axis (tv1 tri); p2 = dot axis (tv2 tri)
      in (min (min p0 p1) p2, max (max p0 p1) p2))"

text \<open>The comparison of the two projection intervals at the end of \<open>check_separation\<close>.\<close>

definition intervals_apart :: "Triangle \<Rightarrow> Triangle \<Rightarrow> Vector3d \<Rightarrow> bool" where
  "intervals_apart tri1 tri2 axis =
     (let p1 = project_triangle tri1 axis; p2 = project_triangle tri2 axis
      in snd p1 < fst p2 \<or> snd p2 < fst p1)"

definition check_separation :: "Triangle \<Rightarrow> Triangle \<Rightarrow> Vector3d \<Rightarrow> bool" where
  "check_separation tri1 tri2 axis =
     (if isZero axis then False else intervals_apart tri1 tri2 axis)"

text \<open>The two nested loops over the edge pairs; the value is \<open>False\<close> when a loop body
  returns \<open>false\<close> from \<open>check_triangle_intersection\<close> and \<open>True\<close> when the loop runs out.\<close>

fun edge_loop_inner :: "Triangle \<Rightarrow> Triangle \<Rightarrow> Vector3d \<Rightarrow> Vector3d list \<Rightarrow> bool" where
  "edge_loop_inner tri1 tri2 e1 [] = True"
| "edge_loop_inner tri1 tri2 e1 (e2 # es) =
     (let c = cross e1 e2 in
      if \<not> isZero c \<and> check_separation tri1 tri2 (normalized c) then False
      else edge_loop_inner tri1 tri2 e1 es)"

fun edge_loop_outer :: "Triangle \<Rightarrow> Triangle \<Rightarrow> Vector3d list \<Rightarrow> Vector3d list \<Rightarrow> bool" where
  "edge_loop_outer tri1 tri2 [] edges2 = True"
| "edge_loop_outer tri1 tri2 (e1 # es) edges2 =
     (if edge_loop_inner tri1 tri2 e1 edges2 then edge_loop_outer tri1 tri2 es edges2 else False)"

definition check_triangle_intersection :: "Triangle \<Rightarrow> Triangle \<Rightarrow> bool" where
  "check_triangle_intersection tri1 tri2 =
     (let normal1 = get_normal tri1; normal2 = get_normal tri2 in
      if \<not> isZero normal1 \<and> check_separation tri1 tri2 normal1 then False
      else if \<not> isZero normal2 \<and> check_separation tri1 tri2 normal2 then False
      else edge_loop_outer tri1 tri2 (get_edges tri1) (get_edges tri2))"

definition compute_triangle_aabb :: "Triangle \<Rightarrow> AABB" where
  "compute_triangle_aabb tri =
     AABB (Vector3d (min (min (vx (tv0 tri)) (vx (tv1 tri))) (vx (tv2 tri)))
                    (min (min (vy (tv0 tri)) (vy (tv1 tri))) (vy (tv2 tri)))
                    (min (min (vz (tv0 tri)) (vz (tv1 tri))) (vz (tv2 tri))))
          (Vector3d (max (max (vx (tv0 tri)) (vx (tv1 tri))) (vx (tv2 tri)))
                    (max (max (vy (tv0 tri)) (vy (tv1 tri))) (vy (tv2 tri)))
                    (max (max (vz (tv0 tri)) (vz (tv1 tri))) (vz (tv2 tri))))"

text \<open>The shared-vertex test written inline before every SAT call: some vertex of \<open>tri1\<close>
  is at Euclidean distance below \<open>EPSILON\<close> from some vertex of \<open>tri2\<close>.\<close>

definition vertex_dist :: "Vector3d \<Rightarrow> Vector3d \<Rightarrow> real" where
  "vertex_dist v1 v2 = sqrt ((vx v1 - vx v2) * (vx v1 - vx v2) +
                             (vy v1 - vy v2) * (vy v1 - vy v2) +
                             (vz v1 - vz v2) * (vz v1 - vz v2))"

definition share_vertex :: "Triangle \<Rightarrow> Triangle \<Rightarrow> bool" where
  "share_vertex tri1 tri2 =
     list_ex (\<lambda>v1. list_ex (\<lambda>v2. vertex_dist v1 v2 < EPSILON) (vertices tri2)) (vertices tri1)"

definition to_vec :: "vertex_row \<Rightarrow> Vector3d" where
  "to_vec r = (case r of (a, b, c) \<Rightarrow> Vector3d a b c)"

section \<open>Adjacent faces (algorithms/adjacent\_faces\_detector.cpp)\<close>

text \<open>This file has its own \<open>Vector3d\<close>, whose division returns the zero vector only for a
  divisor equal to zero.\<close>

definition adj_vec_div :: "Vector3d \<Rightarrow> real \<Rightarrow> Vector3d" where
  "adj_vec_div a s = (if s = 0 then Zero else Vector3d (vx a / s) (vy a / s) (vz a / s))"

definition centroid :: "Triangle \<Rightarrow> Vector3d" where
  "centroid tri = adj_vec_div (vec_add (vec_add (tv0 tri) (tv1 tri)) (tv2 tri)) 3"

definition average_edge_length :: "Triangle \<Rightarrow> real" where
  "average_edge_length tri =
     (let e1 = norm3d (vec_sub (tv1 tri) (tv0 tri));
          e2 = norm3d (vec_sub (tv2 tri) (tv1 tri));
          e3 = norm3d (vec_sub (tv0 tri) (tv2 tri))
      in (e1 + e2 + e3) / 3)"

text \<open>The index check in front of both loops' bodies: a face with an index outside
  \<open>[0, num_vertices)\<close> is skipped with a warning.\<close>

definition checked_triangle :: "vertex_row list \<Rightarrow> face_row \<Rightarrow> Triangle option" where
  "checked_triangle V f = (case f of (idx1, idx2, idx3) \<Rightarrow>
     if idx1 < 0 \<or> idx1 \<ge> int (length V) \<or> idx2 < 0 \<or> idx2 \<ge> int (length V) \<or>
        idx3 < 0 \<or> idx3 \<ge> int (length V)
     then None
     else Some (Triangle (to_vec (V ! nat idx1)) (to_vec (V ! nat idx2)) (to_vec (V ! nat idx3))))"

text \<open>The inner loop over the faces \<open>j > i\<close>; \<open>gs\<close> holds the rows of the faces from \<open>j\<close> on.\<close>

fun adjacent_inner ::
  "vertex_row list \<Rightarrow> real \<Rightarrow> nat \<Rightarrow> Triangle \<Rightarrow> nat \<Rightarrow> face_row list \<Rightarrow> (int \<times> int) list
     \<Rightarrow> (int \<times> int) list"
where
  "adjacent_inner V proximity_threshold i current_tri j [] adjacent_pairs = adjacent_pairs"
| "adjacent_inner V proximity_threshold i current_tri j (g # gs) adjacent_pairs =
     (case checked_triangle V g of
        None \<Rightarrow> adjacent_inner V proximity_threshold i current_tri (j + 1) gs adjacent_pairs
      | Some other_tri \<Rightarrow>
          let avg_edge_len1 = average_edge_length current_tri;
              avg_edge_len2 = average_edge_length other_tri;
              centroid_dist = norm3d (vec_sub (centroid current_tri) (centroid other_tri));
              min_avg_edge_len = min avg_edge_len1 avg_edge_len2
          in if min_avg_edge_len < 1 / 10 ^ 10 then
               (if centroid_dist < 1 / 10 ^ 10
                then adjacent_inner V proximity_threshold i current_tri (j + 1) gs
                       (adjacent_pairs @ [(int i, int j)])
                else adjacent_inner V proximity_threshold i current_tri (j + 1) gs adjacent_pairs)
             else
               let proximity = centroid_dist / min_avg_edge_len in
               if proximity \<le> proximity_threshold
               then adjacent_inner V proximity_threshold i current_tri (j + 1) gs
                      (adjacent_pairs @ [(int i, int j)])
               else adjacent_inner V proximity_threshold i current_tri (j + 1) gs adjacent_pairs)"

fun adjacent_outer ::
  "vertex_row list \<Rightarrow> real \<Rightarrow> nat \<Rightarrow> face_row list \<Rightarrow> (int \<times> int) list \<Rightarrow> (int \<times> int) list"
where
  "adjacent_outer V proximity_threshold i [] adjacent_pairs = adjacent_pairs"
| "adjacent_outer V proximity_threshold i (f # fs) adjacent_pairs =
     (case checked_triangle V f of
        None \<Rightarrow> adjacent_outer V proximity_threshold (i + 1) fs adjacent_pairs
      | Some current_tri \<Rightarrow>
          adjacent_outer V proximity_threshold (i + 1) fs
            (adjacent_inner V proximity_threshold i current_tri (i + 1) fs adjacent_pairs))"

definition detect_adjacent_faces :: "vertex_row list \<Rightarrow> face_row list \<Rightarrow> real \<Rightarrow> (int \<times> int) list"
where
  "detect_adjacent_faces V F proximity_threshold = adjacent_outer V proximity_threshold 0 F []"

text \<open>The triangle of a face whose indices are in range, and the quantities of the rule.\<close>

definition face_triangle :: "vertex_row list \<Rightarrow> face_row \<Rightarrow> Triangle" where
  "face_triangle V f = (case f of (a, b, c) \<Rightarrow>
     Triangle (to_vec (V ! nat a)) (to_vec (V ! nat b)) (to_vec (V ! nat c)))"

definition min_avg_edge :: "Triangle \<Rightarrow> Triangle \<Rightarrow> real" where
  "min_avg_edge t1 t2 = min (average_edge_length t1) (average_edge_length t2)"

definition centroid_distance :: "Triangle \<Rightarrow> Triangle \<Rightarrow> real" where
  "centroid_distance t1 t2 = norm3d (vec_sub (centroid t1) (centroid t2))"

text \<open>The three-branch rule as the specification words it, with \<open>L\<close> the smaller average
  edge length and \<open>d\<close> the distance of the centroids.\<close>

definition adjacent_rule :: "real \<Rightarrow> Triangle \<Rightarrow> Triangle \<Rightarrow> bool" where
  "adjacent_rule threshold t1 t2 =
     (let L = min_avg_edge t1 t2; d = centroid_distance t1 t2
      in if L < 1 / 10 ^ 10 \<and> d < 1 / 10 ^ 10 then True
         else if L < 1 / 10 ^ 10 then False
         else d / L \<le> threshold)"

text \<open>
  The separation test as the specification words it, for comparison with
  \<open>check_triangle_intersection\<close>: the axes are the two face normals and the nine edge cross
  products, an axis is ignored when its norm is below \<open>1e-8\<close>, and the pair is separated
  when on some remaining axis the projection intervals are apart.
\<close>

definition tested_axes :: "Triangle \<Rightarrow> Triangle \<Rightarrow> Vector3d list" where
  "tested_axes a b =
     raw_normal a # raw_normal b #
     concat (map (\<lambda>ea. map (\<lambda>eb. cross ea eb) (get_edges b)) (get_edges a))"

definition spec_separated :: "Triangle \<Rightarrow> Triangle \<Rightarrow> bool" where
  "spec_separated a b =
     list_ex (\<lambda>axis. \<not> norm3d axis < ALMOST_ZERO \<and> intervals_apart a b axis) (tested_axes a b)"

text \<open>Two small triangles one unit apart: every edge is shorter than \<open>1.3e-4\<close>, so every
  edge cross product has components below \<open>1e-8\<close>.\<close>

definition tinyA :: Triangle where
  "tinyA = Triangle (Vector3d 0 0 0) (Vector3d (1 / 10 ^ 4) 0 0) (Vector3d 0 (1 / 10 ^ 5) 0)"

definition tinyB :: Triangle where
  "tinyB = Triangle (Vector3d 0 0 1) (Vector3d 0 (9 / 10 ^ 5) (1 + 9 / 10 ^ 5))
                    (Vector3d 0 (1 / 10 ^ 5) 1)"

section \<open>Overlapping edges (overlapping\_edges\_detector.cpp)\<close>

text \<open>\<open>EdgeKey\<close>: the constructor stores the component-wise minimum and maximum of the two
  end points; \<open>operator==\<close> compares the six numbers with tolerance \<open>1e-5\<close>.\<close>

record EdgeKey =
  x1 :: real
  y1 :: real
  z1 :: real
  x2 :: real
  y2 :: real
  z2 :: real

definition make_EdgeKey :: "real \<Rightarrow> real \<Rightarrow> real \<Rightarrow> real \<Rightarrow> real \<Rightarrow> real \<Rightarrow> EdgeKey" where
  "make_EdgeKey x1' y1' z1' x2' y2' z2' =
     \<lparr> x1 = min x1' x2', y1 = min y1' y2', z1 = min z1' z2',
       x2 = max x1' x2', y2 = max y1' y2', z2 = max z1' z2' \<rparr>"

definition EdgeKey_eq :: "EdgeKey \<Rightarrow> EdgeKey \<Rightarrow> bool" where
  "EdgeKey_eq k other =
     (\<bar>x1 k - x1 other\<bar> < 1 / 10 ^ 5 \<and> \<bar>y1 k - y1 other\<bar> < 1 / 10 ^ 5 \<and>
      \<bar>z1 k - z1 other\<bar> < 1 / 10 ^ 5 \<and> \<bar>x2 k - x2 other\<bar> < 1 / 10 ^ 5 \<and>
      \<bar>y2 k - y2 other\<bar> < 1 / 10 ^ 5 \<and> \<bar>z2 k - z2 other\<bar> < 1 / 10 ^ 5)"

text \<open>\<open>std::llround\<close> rounds to the nearest integer, halfway cases away from zero, and
  returns a \<open>long long\<close>, here a 64-bit word. When the rounded value does not fit, the
  value returned is unspecified in C++; it is the parameter \<open>unspec\<close>.\<close>

definition llround :: "(real \<Rightarrow> 64 word) \<Rightarrow> real \<Rightarrow> 64 word" where
  "llround unspec v =
     (let r = (if 0 \<le> v then \<lfloor>v + 1 / 2\<rfloor> else \<lceil>v - 1 / 2\<rceil>)
      in if - (2 ^ 63) \<le> r \<and> r < 2 ^ 63 then word_of_int r else unspec v)"

text \<open>\<open>std::hash<EdgeKey>\<close>: the six coordinates scaled by \<open>pow(10, 5)\<close> and rounded, their
  \<open>std::hash<long long>\<close> values shifted and combined by exclusive or in \<open>size_t\<close> (64 bits).
  \<open>std::hash<long long>\<close> belongs to the standard library and is the parameter \<open>hll\<close>.\<close>

definition EdgeKey_hash :: "(64 word \<Rightarrow> 64 word) \<Rightarrow> (real \<Rightarrow> 64 word) \<Rightarrow> EdgeKey \<Rightarrow> 64 word" where
  "EdgeKey_hash hll unspec k =
     (let scale = 10 ^ 5;
          h1 = hll (llround unspec (x1 k * scale)); h2 = hll (llround unspec (y1 k * scale));
          h3 = hll (llround unspec (z1 k * scale)); h4 = hll (llround unspec (x2 k * scale));
          h5 = hll (llround unspec (y2 k * scale)); h6 = hll (llround unspec (z2 k * scale))
      in xor h1 (xor (push_bit 1 h2) (xor (push_bit 2 h3) (xor (push_bit 3 h4)
           (xor (push_bit 4 h5) (push_bit 5 h6))))))"

text \<open>The probe of \<open>std::unordered_map<EdgeKey, \<dots>>\<close>: a stored key is found when
  \<open>operator==\<close> accepts it and its hash value is the probe's (the number of hash buckets of
  the table is not modelled). Should several stored keys qualify, \<open>bucket_append\<close> takes the
  one stored first.\<close>

definition EdgeKey_found ::
  "(64 word \<Rightarrow> 64 word) \<Rightarrow> (real \<Rightarrow> 64 word) \<Rightarrow> EdgeKey \<Rightarrow> EdgeKey \<Rightarrow> bool" where
  "EdgeKey_found hll unspec stored k =
     (EdgeKey_eq stored k \<and> EdgeKey_hash hll unspec stored = EdgeKey_hash hll unspec k)"

text \<open>The raw reads \<open>vertices_ptr[a * 3 + c]\<close>.\<close>

definition edge_key_of :: "vertex_row list \<Rightarrow> int \<times> int \<Rightarrow> EdgeKey option" where
  "edge_key_of V edge = (case edge of (a, b) \<Rightarrow>
     (case vertex_at V a of None \<Rightarrow> None | Some (ax, ay, az) \<Rightarrow>
     (case vertex_at V b of None \<Rightarrow> None | Some (bx, by, bz) \<Rightarrow>
        Some (make_EdgeKey ax ay az bx by bz))))"

definition face_edge_pairs :: "face_row \<Rightarrow> (int \<times> int) list" where
  "face_edge_pairs f = (case f of (v1_idx, v2_idx, v3_idx) \<Rightarrow>
     [(v1_idx, v2_idx), (v2_idx, v3_idx), (v3_idx, v1_idx)])"

type_synonym edge_map = "(EdgeKey \<times> (int \<times> int) list) list"

text \<open>The inner loop over the three edges of a face, and the loop over the faces.\<close>

fun insert_edges ::
  "(64 word \<Rightarrow> 64 word) \<Rightarrow> (real \<Rightarrow> 64 word) \<Rightarrow> vertex_row list \<Rightarrow> (int \<times> int) list
   \<Rightarrow> edge_map \<Rightarrow> edge_map option"
where
  "insert_edges hll unspec V [] m = Some m"
| "insert_edges hll unspec V (edge # edges) m =
     (case edge_key_of V edge of
        None \<Rightarrow> None
      | Some key \<Rightarrow>
          insert_edges hll unspec V edges (bucket_append (EdgeKey_found hll unspec) key edge m))"

fun collect_edge_map ::
  "(64 word \<Rightarrow> 64 word) \<Rightarrow> (real \<Rightarrow> 64 word) \<Rightarrow> vertex_row list \<Rightarrow> face_row list
   \<Rightarrow> edge_map \<Rightarrow> edge_map option"
where
  "collect_edge_map hll unspec V [] m = Some m"
| "collect_edge_map hll unspec V (f # fs) m =
     (case insert_edges hll unspec V (face_edge_pairs f) m of
        None \<Rightarrow> None
      | Some m' \<Rightarrow> collect_edge_map hll unspec V fs m')"

text \<open>The output loop runs over the \<open>std::unordered_map\<close> in the table's own iteration
  order, which C++ leaves open and which is not the order of creation in general. The returned
  vector is therefore given as the multiset of its entries: one entry, the first pair, for
  every bucket of more than two pairs.\<close>

definition overlapping_of :: "edge_map \<Rightarrow> (int \<times> int) multiset" where
  "overlapping_of m =
     image_mset (\<lambda>pair. hd (snd pair)) (filter_mset (\<lambda>pair. length (snd pair) > 2) (mset m))"

definition detect_overlapping_edges_with_timing ::
  "(64 word \<Rightarrow> 64 word) \<Rightarrow> (real \<Rightarrow> 64 word) \<Rightarrow> vertex_row list \<Rightarrow> face_row list \<Rightarrow> real
   \<Rightarrow> (int \<times> int) multiset option"
where
  "detect_overlapping_edges_with_timing hll unspec V F tolerance =
     (case collect_edge_map hll unspec V F [] of
        None \<Rightarrow> None
      | Some edge_map \<Rightarrow> Some (overlapping_of edge_map))"

text \<open>All face-edge incidences in the order of the scan.\<close>

definition scan_order :: "face_row list \<Rightarrow> (int \<times> int) list" where
  "scan_order F = concat (map face_edge_pairs F)"

text \<open>What the loop maintains: no bucket is empty, every bucket lists its incidences in
  scan order, and the buckets together hold every scanned incidence exactly once.\<close>

definition edge_map_inv :: "edge_map \<Rightarrow> (int \<times> int) list \<Rightarrow> bool" where
  "edge_map_inv m xs = (list_all (\<lambda>b. snd b \<noteq> []) m \<and> list_all (\<lambda>b. subseq (snd b) xs) m
                        \<and> mset (concat (map snd m)) = mset xs)"

text \<open>What the probe maintains, for a table with key equality \<open>eq\<close> whose values have the
  keys \<open>key\<close>: a bucket stores the key of its first value, the stored key is found for the
  key of every value of the bucket, and it is not found for the key of any value of a bucket
  created later.\<close>

fun first_match_inv :: "('k \<Rightarrow> 'k \<Rightarrow> bool) \<Rightarrow> ('v \<Rightarrow> 'k option) \<Rightarrow> ('k \<times> 'v list) list \<Rightarrow> bool"
where
  "first_match_inv eq key [] = True"
| "first_match_inv eq key ((k, vs) # rest) =
     (vs \<noteq> [] \<and> key (hd vs) = Some k
      \<and> list_all (\<lambda>v. map_option (eq k) (key v) = Some True) vs
      \<and> list_all (\<lambda>b. list_all (\<lambda>v. map_option (eq k) (key v) = Some False) (snd b)) rest
      \<and> first_match_inv eq key rest)"

subsection \<open>The geometric edge key in the words of the specification\<close>

text \<open>The specification keys an edge by its end points sorted component-wise, compared with
  the tolerance \<open>1e-5\<close>. Written out on the vertex table, independently of \<open>EdgeKey\<close>:
  the six numbers are, per coordinate, the smaller and the larger value of the two end points,
  that is, the corners of the axis-aligned box that the edge spans.\<close>

definition geometric_box :: "vertex_row list \<Rightarrow> int \<times> int \<Rightarrow> real list" where
  "geometric_box V e =
     (case V ! nat (fst e) of (ax, ay, az) \<Rightarrow>
      case V ! nat (snd e) of (bx, by, bz) \<Rightarrow>
        [min ax bx, min ay by, min az bz, max ax bx, max ay by, max az bz])"

definition within_tolerance :: "real list \<Rightarrow> real list \<Rightarrow> bool" where
  "within_tolerance p q = list_all2 (\<lambda>u v. \<bar>u - v\<bar> < 1 / 10 ^ 5) p q"

text \<open>An incidence \<open>e\<close> is accepted by the first incidence of a bucket when the six key
  numbers of the two are within the tolerance and the two hash to the same value.\<close>

definition key_accepts ::
  "(64 word \<Rightarrow> 64 word) \<Rightarrow> (real \<Rightarrow> 64 word) \<Rightarrow> vertex_row list \<Rightarrow> int \<times> int \<Rightarrow> int \<times> int \<Rightarrow> bool"
where
  "key_accepts hll unspec V first e =
     (within_tolerance (geometric_box V first) (geometric_box V e)
      \<and> map_option (EdgeKey_hash hll unspec) (edge_key_of V first)
          = map_option (EdgeKey_hash hll unspec) (edge_key_of V e))"

text \<open>Quantization to five decimal places, halfway cases away from zero, and the coordinates
  whose quantized value fits a \<open>long long\<close>.\<close>

definition quantized :: "real \<Rightarrow> int" where
  "quantized v = (if 0 \<le> v then \<lfloor>v * 10 ^ 5 + 1 / 2\<rfloor> else \<lceil>v * 10 ^ 5 - 1 / 2\<rceil>)"

definition representable :: "real \<Rightarrow> bool" where
  "representable v = (- (2 ^ 63) \<le> quantized v \<and> quantized v < 2 ^ 63)"

definition representable_row :: "vertex_row \<Rightarrow> bool" where
  "representable_row p = (case p of (x, y, z) \<Rightarrow> representable x \<and> representable y \<and> representable z)"
section \<open>Octree and full detection (pierced\_faces\_detector\_utf8.cpp)\<close>

text \<open>A read \<open>xs[i]\<close> of a \<open>std::vector\<close>; outside the vector it is undefined behaviour,
  here \<open>None\<close>.\<close>

definition vec_at :: "'a list \<Rightarrow> int \<Rightarrow> 'a option" where
  "vec_at xs i = (if 0 \<le> i \<and> i < int (length xs) then Some (xs ! nat i) else None)"

datatype OctreeNode =
  OctreeNode (node_center: Vector3d) (node_size: real) (node_depth: int)
             (face_indices: "int list") (children: "OctreeNode option list")

definition get_octant :: "Vector3d \<Rightarrow> Vector3d \<Rightarrow> nat" where
  "get_octant center point =
     (if vx point \<ge> vx center then 1 else 0) + (if vy point \<ge> vy center then 2 else 0) +
     (if vz point \<ge> vz center then 4 else 0)"

definition tri_center :: "Triangle \<Rightarrow> Vector3d" where
  "tri_center tri = Vector3d ((vx (tv0 tri) + vx (tv1 tri) + vx (tv2 tri)) / 3)
                             ((vy (tv0 tri) + vy (tv1 tri) + vy (tv2 tri)) / 3)
                             ((vz (tv0 tri) + vz (tv1 tri) + vz (tv2 tri)) / 3)"

text \<open>The centre of child \<open>i\<close>: the tests \<open>i & 1\<close>, \<open>i & 2\<close>, \<open>i & 4\<close> choose the sign of
  the offset on each axis.\<close>

definition child_center_of :: "Vector3d \<Rightarrow> real \<Rightarrow> nat \<Rightarrow> Vector3d" where
  "child_center_of center half_size i =
     Vector3d (if odd i then vx center + half_size else vx center - half_size)
              (if odd (i div 2) then vy center + half_size else vy center - half_size)
              (if odd (i div 4) then vz center + half_size else vz center - half_size)"

definition octants :: "nat list" where
  "octants = [0, 1, 2, 3, 4, 5, 6, 7]"

text \<open>\<open>build_octree\<close> is only ever called with face indices taken from \<open>[0, num_faces)\<close> and
  a triangle array of \<open>num_faces\<close> entries, so \<open>triangles[face_idx]\<close> is in range.\<close>

function build_octree ::
  "Triangle list \<Rightarrow> int list \<Rightarrow> Vector3d \<Rightarrow> real \<Rightarrow> int \<Rightarrow> int \<Rightarrow> int \<Rightarrow> OctreeNode"
where
  "build_octree triangles face_idxs center sz depth max_depth min_faces =
     (if depth \<ge> max_depth \<or> int (length face_idxs) \<le> min_faces
      then OctreeNode center sz depth face_idxs (replicate 8 None)
      else
        let half_size = sz / 2 in
        OctreeNode center sz depth face_idxs
          (map (\<lambda>i.
                 let child_faces =
                       filter (\<lambda>face_idx. get_octant center (tri_center (triangles ! nat face_idx)) = i)
                              face_idxs
                 in if child_faces = [] then None
                    else Some (build_octree triangles child_faces
                                 (child_center_of center half_size i) half_size
                                 (depth + 1) max_depth min_faces))
               octants))"
  by pat_completeness auto
termination
  by (relation "measure (\<lambda>(triangles, face_idxs, center, sz, depth, max_depth, min_faces).
                          nat (max_depth - depth))") auto

declare build_octree.simps [simp del]

text \<open>The bounding box of all triangle vertices, started from \<open>numeric_limits<double>::max()\<close>
  and \<open>lowest()\<close>, then the centre and the size of the root, and the root itself (the same
  block of code stands in the full detection, in the initialisation and in the rebuild).\<close>

definition DBL_MAX :: real where
  "DBL_MAX = (2 - 1 / 2 ^ 52) * 2 ^ 1023"

definition extend_bounds :: "Vector3d \<Rightarrow> Vector3d \<times> Vector3d \<Rightarrow> Vector3d \<times> Vector3d" where
  "extend_bounds v b = (case b of (min_point, max_point) \<Rightarrow>
     (Vector3d (min (vx min_point) (vx v)) (min (vy min_point) (vy v)) (min (vz min_point) (vz v)),
      Vector3d (max (vx max_point) (vx v)) (max (vy max_point) (vy v)) (max (vz max_point) (vz v))))"

definition mesh_bounds :: "Triangle list \<Rightarrow> Vector3d \<times> Vector3d" where
  "mesh_bounds triangles =
     fold (\<lambda>tri b. fold extend_bounds (vertices tri) b) triangles
       (Vector3d DBL_MAX DBL_MAX DBL_MAX, Vector3d (- DBL_MAX) (- DBL_MAX) (- DBL_MAX))"

definition all_indices :: "nat \<Rightarrow> int list" where
  "all_indices num_faces = map int [0..<num_faces]"

definition build_root :: "Triangle list \<Rightarrow> OctreeNode" where
  "build_root triangles =
     (case mesh_bounds triangles of (min_point, max_point) \<Rightarrow>
        let center = Vector3d ((vx min_point + vx max_point) / 2)
                              ((vy min_point + vy max_point) / 2)
                              ((vz min_point + vz max_point) / 2);
            sz = max (max (vx max_point - vx min_point) (vy max_point - vy min_point))
                       (vz max_point - vz min_point) * 1.01
        in build_octree triangles (all_indices (length triangles)) center sz 0 8 20)"

text \<open>The triangle of a face row, read through \<open>vertices_buf(faces_buf(f, k), c)\<close> without
  bounds checks.\<close>

definition read_triangle :: "vertex_row list \<Rightarrow> face_row \<Rightarrow> Triangle option" where
  "read_triangle V f = (case f of (a, b, c) \<Rightarrow>
     (case vertex_at V a of None \<Rightarrow> None | Some v0 \<Rightarrow>
     (case vertex_at V b of None \<Rightarrow> None | Some v1 \<Rightarrow>
     (case vertex_at V c of None \<Rightarrow> None | Some v2 \<Rightarrow>
        Some (Triangle (to_vec v0) (to_vec v1) (to_vec v2))))))"

fun read_triangles :: "vertex_row list \<Rightarrow> face_row list \<Rightarrow> Triangle list option" where
  "read_triangles V [] = Some []"
| "read_triangles V (f # fs) =
     (case read_triangle V f of None \<Rightarrow> None | Some tri \<Rightarrow>
     (case read_triangles V fs of None \<Rightarrow> None | Some tris \<Rightarrow> Some (tri # tris)))"

text \<open>The result containers: \<open>std::set<int> intersecting_faces\<close> and
  \<open>std::map<int, std::set<int>> intersection_map\<close>, and the block that records a hit.\<close>

record detect_state =
  intersecting_faces :: "int set"
  intersection_map :: "int \<rightharpoonup> int set"

definition empty_state :: detect_state where
  "empty_state = \<lparr> intersecting_faces = {}, intersection_map = Map.empty \<rparr>"

definition map_entry :: "(int \<rightharpoonup> int set) \<Rightarrow> int \<Rightarrow> int set" where
  "map_entry m k = (case m k of None \<Rightarrow> {} | Some s \<Rightarrow> s)"

definition record_intersection :: "int \<Rightarrow> int \<Rightarrow> detect_state \<Rightarrow> detect_state" where
  "record_intersection face_idx other_idx st =
     (let faces = insert other_idx (insert face_idx (intersecting_faces st));
          m0 = intersection_map st;
          m1 = (if m0 face_idx = None then m0(face_idx \<mapsto> {}) else m0);
          m2 = (if m1 other_idx = None then m1(other_idx \<mapsto> {}) else m1);
          m3 = m2(face_idx \<mapsto> insert other_idx (map_entry m2 face_idx));
          m4 = m3(other_idx \<mapsto> insert face_idx (map_entry m3 other_idx))
      in \<lparr> intersecting_faces = faces, intersection_map = m4 \<rparr>)"

text \<open>The test in front of the recording block: the boxes overlap, no vertex is shared, and
  the SAT test finds no separating axis.\<close>

definition pair_test :: "Triangle \<Rightarrow> AABB \<Rightarrow> Triangle \<Rightarrow> AABB \<Rightarrow> bool" where
  "pair_test tri1 bbox1 tri2 bbox2 =
     (intersects bbox1 bbox2 \<and> \<not> share_vertex tri1 tri2 \<and> check_triangle_intersection tri1 tri2)"

text \<open>The loop of a leaf over its \<open>face_indices\<close>.\<close>

fun leaf_loop ::
  "Triangle list \<Rightarrow> AABB list \<Rightarrow> int \<Rightarrow> Triangle \<Rightarrow> AABB \<Rightarrow> int list \<Rightarrow> detect_state
     \<Rightarrow> detect_state option"
where
  "leaf_loop triangles face_bboxes face_idx tri1 bbox1 [] st = Some st"
| "leaf_loop triangles face_bboxes face_idx tri1 bbox1 (other_idx # rest) st =
     (if other_idx = face_idx then leaf_loop triangles face_bboxes face_idx tri1 bbox1 rest st
      else case vec_at face_bboxes other_idx of
        None \<Rightarrow> None
      | Some bbox2 \<Rightarrow>
          if intersects bbox1 bbox2 then
            (case vec_at triangles other_idx of
               None \<Rightarrow> None
             | Some tri2 \<Rightarrow>
                 if \<not> share_vertex tri1 tri2 \<and> check_triangle_intersection tri1 tri2
                 then leaf_loop triangles face_bboxes face_idx tri1 bbox1 rest
                        (record_intersection face_idx other_idx st)
                 else leaf_loop triangles face_bboxes face_idx tri1 bbox1 rest st)
          else leaf_loop triangles face_bboxes face_idx tri1 bbox1 rest st)"

definition child_bbox :: "Vector3d \<Rightarrow> real \<Rightarrow> nat \<Rightarrow> AABB" where
  "child_bbox center half_size i =
     (let child_center = child_center_of center half_size i in
      AABB (Vector3d (vx child_center - half_size) (vy child_center - half_size)
                     (vz child_center - half_size))
           (Vector3d (vx child_center + half_size) (vy child_center + half_size)
                     (vz child_center + half_size)))"

text \<open>The recursive lambda \<open>query_octree\<close> of the full detection, and its loop over the eight
  children (\<open>i\<close> is the number of the first child of the list).\<close>

fun query_octree ::
  "Triangle list \<Rightarrow> AABB list \<Rightarrow> OctreeNode \<Rightarrow> int \<Rightarrow> detect_state \<Rightarrow> detect_state option"
and query_children ::
  "Triangle list \<Rightarrow> AABB list \<Rightarrow> Vector3d \<Rightarrow> real \<Rightarrow> AABB \<Rightarrow> nat \<Rightarrow> OctreeNode option list
     \<Rightarrow> int \<Rightarrow> detect_state \<Rightarrow> detect_state option"
where
  "query_octree triangles face_bboxes (OctreeNode center sz depth idxs chs) face_idx st =
     (if list_all (\<lambda>child. child = None) chs then
        (case vec_at triangles face_idx of None \<Rightarrow> None | Some tri1 \<Rightarrow>
        (case vec_at face_bboxes face_idx of None \<Rightarrow> None | Some bbox1 \<Rightarrow>
           leaf_loop triangles face_bboxes face_idx tri1 bbox1 idxs st))
      else
        (case vec_at face_bboxes face_idx of None \<Rightarrow> None | Some face_bbox \<Rightarrow>
           query_children triangles face_bboxes center (sz / 2) face_bbox 0 chs face_idx st))"
| "query_children triangles face_bboxes center half_size face_bbox i [] face_idx st = Some st"
| "query_children triangles face_bboxes center half_size face_bbox i (None # rest) face_idx st =
     query_children triangles face_bboxes center half_size face_bbox (i + 1) rest face_idx st"
| "query_children triangles face_bboxes center half_size face_bbox i (Some child # rest) face_idx st =
     (if intersects face_bbox (child_bbox center half_size i) then
        (case query_octree triangles face_bboxes child face_idx st of
           None \<Rightarrow> None
         | Some st' \<Rightarrow>
             query_children triangles face_bboxes center half_size face_bbox (i + 1) rest face_idx st')
      else query_children triangles face_bboxes center half_size face_bbox (i + 1) rest face_idx st)"

fun query_all ::
  "Triangle list \<Rightarrow> AABB list \<Rightarrow> OctreeNode \<Rightarrow> int list \<Rightarrow> detect_state \<Rightarrow> detect_state option"
where
  "query_all triangles face_bboxes octree [] st = Some st"
| "query_all triangles face_bboxes octree (face_idx # rest) st =
     (case query_octree triangles face_bboxes octree face_idx st of
        None \<Rightarrow> None
      | Some st' \<Rightarrow> query_all triangles face_bboxes octree rest st')"

text \<open>The conversion of the two containers to the returned vector and map of vectors.\<close>

definition to_result :: "detect_state \<Rightarrow> int list \<times> (int \<rightharpoonup> int list)" where
  "to_result st =
     (sorted_list_of_set (intersecting_faces st),
      (\<lambda>k. case intersection_map st k of None \<Rightarrow> None | Some s \<Rightarrow> Some (sorted_list_of_set s)))"

definition detect_pierced_faces_with_timing ::
  "face_row list \<Rightarrow> vertex_row list \<Rightarrow> (int list \<times> (int \<rightharpoonup> int list)) option"
where
  "detect_pierced_faces_with_timing F V =
     (case read_triangles V F of
        None \<Rightarrow> None
      | Some triangles \<Rightarrow>
          let face_bboxes = map compute_triangle_aabb triangles;
              octree = build_root triangles
          in case query_all triangles face_bboxes octree (all_indices (length F)) empty_state of
               None \<Rightarrow> None
             | Some st \<Rightarrow> Some (to_result st))"

section \<open>The persistent spatial index (pierced\_faces\_detector\_utf8.cpp)\<close>

text \<open>The variables of \<open>namespace global\<close>.\<close>

record index_state =
  persistent_octree :: "OctreeNode option"
  persistent_triangles :: "Triangle list"
  persistent_bboxes :: "AABB list"
  is_initialized :: bool
  num_faces :: nat
  num_vertices :: nat

definition uninitialized :: index_state where
  "uninitialized = \<lparr> persistent_octree = None, persistent_triangles = [], persistent_bboxes = [],
                      is_initialized = False, num_faces = 0, num_vertices = 0 \<rparr>"

definition initialize_spatial_index ::
  "face_row list \<Rightarrow> vertex_row list \<Rightarrow> index_state \<Rightarrow> index_state option"
where
  "initialize_spatial_index F V g =
     (case read_triangles V F of
        None \<Rightarrow> None
      | Some triangles \<Rightarrow>
          Some \<lparr> persistent_octree = Some (build_root triangles),
                 persistent_triangles = triangles,
                 persistent_bboxes = map compute_triangle_aabb triangles,
                 is_initialized = True,
                 num_faces = length F,
                 num_vertices = length V \<rparr>)"

text \<open>The loop of \<open>update_spatial_index\<close> over the modified faces. It runs only when the
  face and vertex counts are those recorded in the index, so \<open>faces_buf(face_idx, _)\<close> is a
  row of \<open>F\<close> for every index that passes the check.\<close>

fun update_faces ::
  "face_row list \<Rightarrow> vertex_row list \<Rightarrow> int list \<Rightarrow> index_state \<Rightarrow> index_state option"
where
  "update_faces F V [] g = Some g"
| "update_faces F V (face_idx # rest) g =
     (if face_idx < 0 \<or> face_idx \<ge> int (num_faces g) then update_faces F V rest g
      else case read_triangle V (F ! nat face_idx) of
        None \<Rightarrow> None
      | Some tri \<Rightarrow>
          update_faces F V rest
            (g\<lparr> persistent_triangles := (persistent_triangles g)[nat face_idx := tri],
                persistent_bboxes := (persistent_bboxes g)[nat face_idx := compute_triangle_aabb tri] \<rparr>))"

definition update_spatial_index ::
  "face_row list \<Rightarrow> vertex_row list \<Rightarrow> int list \<Rightarrow> index_state \<Rightarrow> index_state option"
where
  "update_spatial_index F V modified_faces g =
     (if \<not> is_initialized g then initialize_spatial_index F V g
      else if num_faces g \<noteq> length F \<or> num_vertices g \<noteq> length V
      then initialize_spatial_index F V g
      else case update_faces F V modified_faces g of
        None \<Rightarrow> None
      | Some g' \<Rightarrow>
          if real (length modified_faces) > real (num_faces g') * 0.1
          then Some (g'\<lparr> persistent_octree := Some (build_root (persistent_triangles g')) \<rparr>)
          else Some g')"

text \<open>\<open>std::unordered_set<int> candidate_faces\<close>, iterated in order of first insertion.\<close>

definition cand_insert :: "int \<Rightarrow> int list \<Rightarrow> int list" where
  "cand_insert i cands = (if i \<in> set cands then cands else cands @ [i])"

text \<open>The recursive lambda \<open>find_potential_intersections\<close>: here the box of a node is its
  centre plus and minus half its \<open>size\<close>.\<close>

definition node_bbox :: "Vector3d \<Rightarrow> real \<Rightarrow> AABB" where
  "node_bbox center sz =
     AABB (Vector3d (vx center - sz / 2) (vy center - sz / 2) (vz center - sz / 2))
          (Vector3d (vx center + sz / 2) (vy center + sz / 2) (vz center + sz / 2))"

fun find_potential_intersections :: "AABB \<Rightarrow> OctreeNode \<Rightarrow> int list \<Rightarrow> int list"
and find_in_children :: "AABB \<Rightarrow> OctreeNode option list \<Rightarrow> int list \<Rightarrow> int list"
where
  "find_potential_intersections face_bbox (OctreeNode center sz depth idxs chs) cands =
     (if \<not> intersects face_bbox (node_bbox center sz) then cands
      else if list_all (\<lambda>child. child = None) chs then fold cand_insert idxs cands
      else find_in_children face_bbox chs cands)"
| "find_in_children face_bbox [] cands = cands"
| "find_in_children face_bbox (None # rest) cands = find_in_children face_bbox rest cands"
| "find_in_children face_bbox (Some child # rest) cands =
     find_in_children face_bbox rest (find_potential_intersections face_bbox child cands)"

text \<open>The first loop of \<open>detect_pierced_faces_local\<close>: every target is inserted into the
  candidate set, and then checked.\<close>

fun collect_candidates :: "index_state \<Rightarrow> int list \<Rightarrow> int list \<Rightarrow> int list option" where
  "collect_candidates g [] cands = Some cands"
| "collect_candidates g (face_idx # rest) cands =
     (let cands1 = cand_insert face_idx cands in
      if face_idx < 0 \<or> face_idx \<ge> int (num_faces g) then collect_candidates g rest cands1
      else case vec_at (persistent_bboxes g) face_idx of
        None \<Rightarrow> None
      | Some face_bbox \<Rightarrow>
          collect_candidates g rest
            (case persistent_octree g of
               None \<Rightarrow> cands1
             | Some octree \<Rightarrow> find_potential_intersections face_bbox octree cands1))"

text \<open>The second loop, over the candidates: a target is tested against every candidate, any
  other candidate against every target. Both inner loops have the body of the leaf loop of the
  full detection.\<close>

fun local_loop ::
  "Triangle list \<Rightarrow> AABB list \<Rightarrow> int list \<Rightarrow> int list \<Rightarrow> int list \<Rightarrow> detect_state
     \<Rightarrow> detect_state option"
where
  "local_loop triangles bboxes target_faces candidate_faces [] st = Some st"
| "local_loop triangles bboxes target_faces candidate_faces (face_idx # rest) st =
     (case vec_at triangles face_idx of None \<Rightarrow> None | Some tri1 \<Rightarrow>
     (case vec_at bboxes face_idx of None \<Rightarrow> None | Some bbox1 \<Rightarrow>
     (case leaf_loop triangles bboxes face_idx tri1 bbox1
             (if face_idx \<in> set target_faces then candidate_faces else target_faces) st of
        None \<Rightarrow> None
      | Some st' \<Rightarrow> local_loop triangles bboxes target_faces candidate_faces rest st')))"

definition detect_pierced_faces_local ::
  "face_row list \<Rightarrow> vertex_row list \<Rightarrow> int list \<Rightarrow> index_state
     \<Rightarrow> ((int list \<times> (int \<rightharpoonup> int list)) \<times> index_state) option"
where
  "detect_pierced_faces_local F V target_faces g0 =
     (case (if \<not> is_initialized g0 then initialize_spatial_index F V g0 else Some g0) of
        None \<Rightarrow> None
      | Some g \<Rightarrow>
          (case collect_candidates g target_faces [] of
             None \<Rightarrow> None
           | Some candidate_faces \<Rightarrow>
               (case local_loop (persistent_triangles g) (persistent_bboxes g) target_faces
                       candidate_faces candidate_faces empty_state of
                  None \<Rightarrow> None
                | Some st \<Rightarrow> Some (to_result st, g))))"

section \<open>Invariants of the result containers\<close>

text \<open>\<open>hit triangles face_bboxes f g\<close>: the faces \<open>f\<close> and \<open>g\<close> are in range and pass the test
  in front of the recording block, in this order.\<close>

definition hit :: "Triangle list \<Rightarrow> AABB list \<Rightarrow> int \<Rightarrow> int \<Rightarrow> bool" where
  "hit triangles face_bboxes f g =
     (case (vec_at triangles f, vec_at face_bboxes f, vec_at triangles g, vec_at face_bboxes g) of
        (Some tri1, Some bbox1, Some tri2, Some bbox2) \<Rightarrow> pair_test tri1 bbox1 tri2 bbox2
      | _ \<Rightarrow> False)"

text \<open>What every loop keeps true of the two containers: both are finite, the keys of the map
  are the intersecting faces, no entry is empty, every recorded pair passed the test in one
  of the two orders, and the map is symmetric.\<close>

definition state_inv :: "(int \<Rightarrow> int \<Rightarrow> bool) \<Rightarrow> detect_state \<Rightarrow> bool" where
  "state_inv R st =
     (finite (intersecting_faces st)
      \<and> dom (intersection_map st) = intersecting_faces st
      \<and> (\<forall>f. finite (map_entry (intersection_map st) f))
      \<and> (\<forall>f \<in> dom (intersection_map st). map_entry (intersection_map st) f \<noteq> {})
      \<and> (\<forall>f g. g \<in> map_entry (intersection_map st) f \<longrightarrow>
             (R f g \<or> R g f) \<and> f \<in> map_entry (intersection_map st) g))"

text \<open>The face indices stored anywhere in a tree.\<close>

fun tree_indices :: "OctreeNode \<Rightarrow> int set" where
  "tree_indices (OctreeNode center sz depth idxs chs) =
     set idxs \<union> (\<Union>ch \<in> set chs. case ch of None \<Rightarrow> {} | Some n \<Rightarrow> tree_indices n)"

text \<open>The entry of a key in the returned map of vectors, empty for a missing key.\<close>

definition entries :: "(int \<rightharpoonup> int list) \<Rightarrow> int \<Rightarrow> int list" where
  "entries m k = (case m k of None \<Rightarrow> [] | Some l \<Rightarrow> l)"

section \<open>Example meshes\<close>

text \<open>Spec scenario 4: a triangle in the plane \<open>z = 0\<close> and one in the plane \<open>x = y\<close> that
  passes through its interior; no vertex is shared.\<close>

definition crossV :: "vertex_row list" where
  "crossV = [(0, 0, 0), (2, 0, 0), (0, 2, 0), (1 / 2, 1 / 2, -1), (1 / 2, 1 / 2, 1), (3, 3, 0)]"

definition crossF :: "face_row list" where
  "crossF = [(0, 1, 2), (3, 4, 5)]"

definition crossA :: Triangle where
  "crossA = Triangle (Vector3d 0 0 0) (Vector3d 2 0 0) (Vector3d 0 2 0)"

definition crossB :: Triangle where
  "crossB = Triangle (Vector3d (1 / 2) (1 / 2) (-1)) (Vector3d (1 / 2) (1 / 2) 1) (Vector3d 3 3 0)"

text \<open>Spec scenario 2: the two triangles of a unit square; they share an edge.\<close>

definition squareV :: "vertex_row list" where
  "squareV = [(0, 0, 0), (1, 0, 0), (0, 1, 0), (1, 1, 0)]"

definition squareF :: "face_row list" where
  "squareF = [(0, 1, 2), (1, 3, 2)]"

definition squareA :: Triangle where
  "squareA = Triangle (Vector3d 0 0 0) (Vector3d 1 0 0) (Vector3d 0 1 0)"

definition squareB :: Triangle where
  "squareB = Triangle (Vector3d 1 0 0) (Vector3d 1 1 0) (Vector3d 0 1 0)"

text \<open>The index that \<open>initialize_spatial_index\<close> builds for the two crossing triangles.\<close>

definition cross_index :: index_state where
  "cross_index =
     \<lparr> persistent_octree =
         Some (OctreeNode (Vector3d (3 / 2) (3 / 2) 0) (303 / 100) 0 [0, 1] (replicate 8 None)),
       persistent_triangles = [crossA, crossB],
       persistent_bboxes = [compute_triangle_aabb crossA, compute_triangle_aabb crossB],
       is_initialized = True, num_faces = 2, num_vertices = 6 \<rparr>"

text \<open>
  A mesh of 21 faces, so that the root of the octree is subdivided: face 0 lies in the plane
  \<open>z = 0\<close>, face 1 in the plane \<open>y = 2\<close> and passes through face 0 (the point \<open>(-2, 2, 0)\<close>
  belongs to both), and faces 2 to 20 are copies of a small triangle far from both.
\<close>

definition pierceV :: "vertex_row list" where
  "pierceV = [(-1, -10, 0), (-3, -10, 0), (-2, 5, 0),
              (10, 2, -1), (10, 2, 1), (-5, 2, 0),
              (-10, 10, 1), (-10, 10, -1), (-10, 9, 0)]"

definition pierceF :: "face_row list" where
  "pierceF = (0, 1, 2) # (3, 4, 5) # replicate 19 (6, 7, 8)"

definition pierceA :: Triangle where
  "pierceA = Triangle (Vector3d (-1) (-10) 0) (Vector3d (-3) (-10) 0) (Vector3d (-2) 5 0)"

definition pierceB :: Triangle where
  "pierceB = Triangle (Vector3d 10 2 (-1)) (Vector3d 10 2 1) (Vector3d (-5) 2 0)"

definition pierceH :: Triangle where
  "pierceH = Triangle (Vector3d (-10) 10 1) (Vector3d (-10) 10 (-1)) (Vector3d (-10) 9 0)"

definition pierce_tris :: "Triangle list" where
  "pierce_tris = pierceA # pierceB # replicate 19 pierceH"

definition boxA :: AABB where "boxA = AABB (Vector3d (-3) (-10) 0) (Vector3d (-1) 5 0)"
definition boxB :: AABB where "boxB = AABB (Vector3d (-5) 2 (-1)) (Vector3d 10 2 1)"
definition boxH :: AABB where "boxH = AABB (Vector3d (-10) 9 (-1)) (Vector3d (-10) 10 1)"

definition pierce_bbs :: "AABB list" where
  "pierce_bbs = boxA # boxB # replicate 19 boxH"

definition filler_indices :: "int list" where
  "filler_indices = map int [2..<21]"

definition pierce_root :: OctreeNode where
  "pierce_root =
     OctreeNode (Vector3d 0 0 0) (101 / 5) 0 (all_indices 21)
       [None, None, None, None,
        Some (OctreeNode (Vector3d (- (101 / 10)) (- (101 / 10)) (101 / 10)) (101 / 10) 1 [0]
                (replicate 8 None)),
        None,
        Some (OctreeNode (Vector3d (- (101 / 10)) (101 / 10) (101 / 10)) (101 / 10) 1
                filler_indices (replicate 8 None)),
        Some (OctreeNode (Vector3d (101 / 10) (101 / 10) (101 / 10)) (101 / 10) 1 [1]
                (replicate 8 None))]"

definition pierce_index :: index_state where
  "pierce_index =
     \<lparr> persistent_octree = Some pierce_root, persistent_triangles = pierce_tris,
       persistent_bboxes = pierce_bbs, is_initialized = True, num_faces = 21, num_vertices = 9 \<rparr>"

definition barycentric :: "real \<Rightarrow> real \<Rightarrow> real \<Rightarrow> Triangle \<Rightarrow> Vector3d" where
  "barycentric a b c tri =
     Vector3d (a * vx (tv0 tri) + b * vx (tv1 tri) + c * vx (tv2 tri))
              (a * vy (tv0 tri) + b * vy (tv1 tri) + c * vy (tv2 tri))
              (a * vz (tv0 tri) + b * vz (tv1 tri) + c * vz (tv2 tri))"


text \<open>Meshes for the overlapping-edge detector. \<open>fanF\<close>: three triangles on the common edge
  of the vertices 0 and 1, the second one traversing it from 1 to 0. \<open>rectF\<close>: a rectangle
  with the corners 0, 1, 2, 3 split along the diagonal of 0 and 2, and a third triangle on the
  other diagonal, of 1 and 3. \<open>std_hash\<close> is the identity, as \<open>std::hash<long long>\<close> is
  in libstdc++; \<open>llround_overflow\<close> returns the smallest \<open>long long\<close> for every value
  out of range.\<close>

definition fanV :: "vertex_row list" where
  "fanV = [(0, 0, 0), (1, 0, 0), (0, 1, 0), (0, -1, 0), (0, 0, 1)]"

definition fanF :: "face_row list" where
  "fanF = [(0, 1, 2), (1, 0, 3), (0, 1, 4)]"

definition rectV :: "vertex_row list" where
  "rectV = [(0, 0, 0), (2, 0, 0), (2, 1, 0), (0, 1, 0)]"

definition rectF :: "face_row list" where
  "rectF = [(0, 1, 2), (0, 2, 3), (0, 1, 3)]"

definition std_hash :: "64 word \<Rightarrow> 64 word" where
  "std_hash w = w"

definition llround_overflow :: "real \<Rightarrow> 64 word" where
  "llround_overflow v = push_bit 63 1"
section \<open>Results about the face-quality analyzer\<close>

lemma calculate_face_quality_cases:
  "calculate_face_quality v1 v2 v3 =
     (let a = side_length v2 v3; b = side_length v1 v3; c = side_length v1 v2;
          A = heron_area a b c; s = (a + b + c) / 2
      in if A < 1 / 10 ^ 10 then 0
         else min 1 (max 0 (2 * ((A / s) / ((a * b * c) / (4 * A))))))"
  by (simp add: calculate_face_quality_def heron_area_def Let_def)

lemma calculate_face_quality_range:
  "0 \<le> calculate_face_quality v1 v2 v3 \<and> calculate_face_quality v1 v2 v3 \<le> 1"
  by (simp add: calculate_face_quality_def Let_def)

lemma face_quality_of_range:
  "face_quality_of V f = Some q \<Longrightarrow> 0 \<le> q \<and> q \<le> 1"
  using calculate_face_quality_range
  by (auto simp: face_quality_of_def split: prod.splits option.splits)

lemma quality_loop_values_range:
  "quality_loop V t i fs st = Some st' \<Longrightarrow>
   (\<forall>q \<in> set (quality_values st). 0 \<le> q \<and> q \<le> 1) \<Longrightarrow>
   (\<forall>q \<in> set (quality_values st'). 0 \<le> q \<and> q \<le> 1)"
proof (induction fs arbitrary: i st)
  case Nil
  then show ?case by simp
next
  case (Cons f fs)
  from Cons.prems(1) obtain q where q: "face_quality_of V f = Some q"
    by (auto split: option.splits)
  let ?st = "\<lparr> low_quality_faces =
                 (if q < t then low_quality_faces st @ [i] else low_quality_faces st),
               quality_values = quality_values st @ [q],
               quality_distribution = bump_bin (quality_distribution st) (quality_bin q) \<rparr>"
  from Cons.prems(1) q have step: "quality_loop V t (i + 1) fs ?st = Some st'" by simp
  have "\<forall>x \<in> set (quality_values ?st). 0 \<le> x \<and> x \<le> 1"
    using Cons.prems(2) face_quality_of_range[OF q] by auto
  from Cons.IH[OF step this] show ?case .
qed

lemma quality_loop_total:
  "list_all (valid_face V) fs \<Longrightarrow> \<exists>st'. quality_loop V t i fs st = Some st'"
proof (induction fs arbitrary: i st)
  case Nil
  then show ?case by simp
next
  case (Cons f fs)
  then have "valid_face V f" and rest: "list_all (valid_face V) fs" by simp_all
  then obtain q where "face_quality_of V f = Some q"
    by (auto simp: valid_face_def face_quality_of_def vertex_at_def split: prod.splits)
  then show ?case using Cons.IH[OF rest] by simp
qed

lemma sum_list_unit_range:
  fixes qs :: "real list"
  shows "\<forall>q \<in> set qs. 0 \<le> q \<and> q \<le> 1 \<Longrightarrow> 0 \<le> sum_list qs \<and> sum_list qs \<le> real (length qs)"
  by (induction qs) auto

lemma analyze_stats_range:
  assumes "analyze_face_quality_with_timing V F t = Some (low, stats)"
  shows "0 \<le> min_quality stats \<and> min_quality stats \<le> 1 \<and>
         0 \<le> max_quality stats \<and> max_quality stats \<le> 1 \<and>
         0 \<le> avg_quality stats \<and> avg_quality stats \<le> 1"
proof -
  let ?init = "\<lparr> low_quality_faces = [], quality_values = [],
                 quality_distribution = initial_distribution \<rparr>"
  from assms obtain st where run: "quality_loop V t 0 F ?init = Some st"
    and stats: "stats = \<lparr> total_faces = length F,
                  stats_low_quality_faces = low_quality_faces st,
                  min_quality = (if quality_values st = [] then 1 else Min (set (quality_values st))),
                  max_quality = (if quality_values st = [] then 0 else Max (set (quality_values st))),
                  avg_quality = (if quality_values st = [] then 0
                                 else sum_list (quality_values st) / real (length (quality_values st))),
                  stats_quality_distribution = quality_distribution st \<rparr>"
    by (auto simp: analyze_face_quality_with_timing_def Let_def split: option.splits)
  from quality_loop_values_range[OF run]
  have range: "\<forall>q \<in> set (quality_values st). 0 \<le> q \<and> q \<le> 1" by simp
  show ?thesis
  proof (cases "quality_values st = []")
    case True
    then show ?thesis by (simp add: stats)
  next
    case False
    then have "Min (set (quality_values st)) \<in> set (quality_values st)"
      and "Max (set (quality_values st)) \<in> set (quality_values st)"
      by (simp_all add: Min_in Max_in)
    with range have mm: "0 \<le> Min (set (quality_values st)) \<and> Min (set (quality_values st)) \<le> 1"
      "0 \<le> Max (set (quality_values st)) \<and> Max (set (quality_values st)) \<le> 1"
      by blast+
    from False have len: "0 < real (length (quality_values st))" by simp
    from sum_list_unit_range[OF range] len
    have "0 \<le> sum_list (quality_values st) / real (length (quality_values st))"
      and "sum_list (quality_values st) / real (length (quality_values st)) \<le> 1"
      by (simp_all add: divide_le_eq)
    with mm False show ?thesis by (simp add: stats)
  qed
qed

text \<open>
  C6. For every triangle \<open>calculate_face_quality\<close> is \<open>0\<close> when the Heron area \<open>A\<close> is below
  \<open>1e-10\<close>, and otherwise \<open>2 r / R\<close> with \<open>r = A / s\<close> and \<open>R = a b c / (4 A)\<close> clamped into
  \<open>[0, 1]\<close>; the value lies in \<open>[0, 1]\<close>, and so do every quality value that the loop of
  \<open>analyze_face_quality_with_timing\<close> collects and the minimum, maximum and mean it returns.
\<close>

theorem C6_face_quality_formula_and_range:
  "calculate_face_quality v1 v2 v3 =
     (let a = side_length v2 v3; b = side_length v1 v3; c = side_length v1 v2;
          A = heron_area a b c; s = (a + b + c) / 2; r = A / s; R = (a * b * c) / (4 * A)
      in if A < 1 / 10 ^ 10 then 0 else min 1 (max 0 (2 * (r / R))))
   \<and> 0 \<le> calculate_face_quality v1 v2 v3 \<and> calculate_face_quality v1 v2 v3 \<le> 1
   \<and> (\<forall>st'. quality_loop V t 0 F
              \<lparr> low_quality_faces = [], quality_values = [],
                quality_distribution = initial_distribution \<rparr> = Some st'
        \<longrightarrow> (\<forall>q \<in> set (quality_values st'). 0 \<le> q \<and> q \<le> 1))
   \<and> (\<forall>low stats. analyze_face_quality_with_timing V F t = Some (low, stats)
        \<longrightarrow> 0 \<le> min_quality stats \<and> min_quality stats \<le> 1 \<and>
            0 \<le> max_quality stats \<and> max_quality stats \<le> 1 \<and>
            0 \<le> avg_quality stats \<and> avg_quality stats \<le> 1)"
proof (intro conjI allI impI)
  show "calculate_face_quality v1 v2 v3 =
     (let a = side_length v2 v3; b = side_length v1 v3; c = side_length v1 v2;
          A = heron_area a b c; s = (a + b + c) / 2; r = A / s; R = (a * b * c) / (4 * A)
      in if A < 1 / 10 ^ 10 then 0 else min 1 (max 0 (2 * (r / R))))"
    by (simp add: calculate_face_quality_cases Let_def)
  show "0 \<le> calculate_face_quality v1 v2 v3" "calculate_face_quality v1 v2 v3 \<le> 1"
    using calculate_face_quality_range by simp_all
next
  fix st'
  assume "quality_loop V t 0 F
              \<lparr> low_quality_faces = [], quality_values = [],
                quality_distribution = initial_distribution \<rparr> = Some st'"
  from quality_loop_values_range[OF this]
  show "\<forall>q \<in> set (quality_values st'). 0 \<le> q \<and> q \<le> 1" by simp
next
  fix low stats
  assume a: "analyze_face_quality_with_timing V F t = Some (low, stats)"
  from analyze_stats_range[OF a]
  show "0 \<le> min_quality stats" "min_quality stats \<le> 1" "0 \<le> max_quality stats"
    "max_quality stats \<le> 1" "0 \<le> avg_quality stats" "avg_quality stats \<le> 1"
    by simp_all
qed

text \<open>The witness for C6: the 3-4-5 right triangle has quality \<open>0.8\<close>.\<close>

lemma quality_3_4_5: "calculate_face_quality (0, 0, 0) (3, 0, 0) (0, 4, 0) = 4 / 5"
proof -
  have s25: "sqrt 25 = 5" using real_sqrt_abs[of 5] by simp
  have s16: "sqrt 16 = 4" using real_sqrt_abs[of 4] by simp
  have s9: "sqrt 9 = 3" using real_sqrt_abs[of 3] by simp
  have s36: "sqrt 36 = 6" using real_sqrt_abs[of 6] by simp
  show ?thesis
    by (simp add: calculate_face_quality_def side_length_def Let_def s25 s16 s9 s36)
qed

theorem C6_witness:
  "quality_loop [(0, 0, 0), (3, 0, 0), (0, 4, 0)] (3 / 10) 0 [(0, 1, 2)]
      \<lparr> low_quality_faces = [], quality_values = [],
        quality_distribution = initial_distribution \<rparr>
     = Some \<lparr> low_quality_faces = [], quality_values = [4 / 5],
              quality_distribution = bump_bin initial_distribution ''0.8-0.9'' \<rparr>
   \<and> analyze_face_quality_with_timing [(0, 0, 0), (3, 0, 0), (0, 4, 0)] [(0, 1, 2)] (3 / 10)
     = Some ([], \<lparr> total_faces = 1, stats_low_quality_faces = [],
                   min_quality = 4 / 5, max_quality = 4 / 5, avg_quality = 4 / 5,
                   stats_quality_distribution = bump_bin initial_distribution ''0.8-0.9'' \<rparr>)
   \<and> 0 \<le> calculate_face_quality (0, 0, 0) (3, 0, 0) (0, 4, 0)
   \<and> calculate_face_quality (0, 0, 0) (3, 0, 0) (0, 4, 0) \<le> 1"
proof -
  have run: "quality_loop [(0, 0, 0), (3, 0, 0), (0, 4, 0)] (3 / 10) 0 [(0, 1, 2)]
      \<lparr> low_quality_faces = [], quality_values = [],
        quality_distribution = initial_distribution \<rparr>
     = Some \<lparr> low_quality_faces = [], quality_values = [4 / 5],
              quality_distribution = bump_bin initial_distribution ''0.8-0.9'' \<rparr>"
    by (simp add: face_quality_of_def vertex_at_def quality_3_4_5 quality_bin_def)
  have res: "analyze_face_quality_with_timing [(0, 0, 0), (3, 0, 0), (0, 4, 0)] [(0, 1, 2)] (3 / 10)
     = Some ([], \<lparr> total_faces = 1, stats_low_quality_faces = [],
                   min_quality = 4 / 5, max_quality = 4 / 5, avg_quality = 4 / 5,
                   stats_quality_distribution = bump_bin initial_distribution ''0.8-0.9'' \<rparr>)"
    by (simp add: analyze_face_quality_with_timing_def run Let_def del: quality_loop.simps)
  from C6_face_quality_formula_and_range[of "(0, 0, 0)" "(3, 0, 0)" "(0, 4, 0)"
       "[(0, 0, 0), (3, 0, 0), (0, 4, 0)]" "3 / 10" "[(0, 1, 2)]"] run res
  show ?thesis by simp
qed

subsection \<open>The histogram\<close>

lemma quality_bin_label: "quality_bin q \<in> set quality_labels"
  by (simp add: quality_bin_def quality_labels_def)

lemma histogram_total_initial: "histogram_total initial_distribution = 0"
  by (simp add: histogram_total_def initial_distribution_def quality_labels_def)

lemma dom_initial_distribution: "dom initial_distribution = set quality_labels"
  by (simp add: initial_distribution_def dom_map_of_conv_image_fst image_image)

lemma distinct_quality_labels: "distinct quality_labels"
  by (simp add: quality_labels_def)

lemma sum_list_count_update:
  fixes g :: "int option \<Rightarrow> int"
  shows "distinct ls \<Longrightarrow> l \<in> set ls \<Longrightarrow>
    sum_list (map (\<lambda>x. g ((d(l \<mapsto> v)) x)) ls) = sum_list (map (\<lambda>x. g (d x)) ls) - g (d l) + g (Some v)"
proof (induction ls)
  case Nil
  then show ?case by simp
next
  case (Cons a ls)
  show ?case
  proof (cases "a = l")
    case True
    with Cons.prems have "l \<notin> set ls" by simp
    then have "sum_list (map (\<lambda>x. g ((d(l \<mapsto> v)) x)) ls) = sum_list (map (\<lambda>x. g (d x)) ls)"
      by (induction ls) auto
    with True show ?thesis by simp
  next
    case False
    with Cons.prems have "distinct ls" "l \<in> set ls" by simp_all
    from Cons.IH[OF this] False show ?thesis by simp
  qed
qed

lemma histogram_total_bump:
  assumes "l \<in> set quality_labels"
  shows "histogram_total (bump_bin d l) = histogram_total d + 1"
  unfolding histogram_total_def bump_bin_def
  using sum_list_count_update[OF distinct_quality_labels assms,
          of "\<lambda>r. case r of None \<Rightarrow> 0 | Some c \<Rightarrow> c" d]
  by (simp split: option.splits)

lemma dom_bump_bin: "l \<in> dom d \<Longrightarrow> dom (bump_bin d l) = dom d"
  by (auto simp: bump_bin_def)

lemma quality_loop_histogram:
  "quality_loop V t i fs st = Some st' \<Longrightarrow>
   dom (quality_distribution st) = set quality_labels \<Longrightarrow>
   histogram_total (quality_distribution st') =
     histogram_total (quality_distribution st) + int (length fs)
   \<and> dom (quality_distribution st') = set quality_labels"
proof (induction fs arbitrary: i st)
  case Nil
  then show ?case by simp
next
  case (Cons f fs)
  from Cons.prems(1) obtain q where q: "face_quality_of V f = Some q"
    by (auto split: option.splits)
  let ?st = "\<lparr> low_quality_faces =
                 (if q < t then low_quality_faces st @ [i] else low_quality_faces st),
               quality_values = quality_values st @ [q],
               quality_distribution = bump_bin (quality_distribution st) (quality_bin q) \<rparr>"
  from Cons.prems(1) q have step: "quality_loop V t (i + 1) fs ?st = Some st'" by simp
  have d: "dom (quality_distribution ?st) = set quality_labels"
    using Cons.prems(2) quality_bin_label[of q] by (simp add: dom_bump_bin)
  have h: "histogram_total (quality_distribution ?st) =
           histogram_total (quality_distribution st) + 1"
    using histogram_total_bump[OF quality_bin_label] by simp
  from Cons.IH[OF step d] h show ?case by simp
qed

text \<open>
  C10. For every mesh with \<open>m\<close> faces (all vertex indices in range, so that the unchecked
  reads are defined) \<open>analyze_face_quality_with_timing\<close> returns, and the ten counts of
  \<open>quality_distribution\<close>, one per label, sum to \<open>total_faces = m\<close>: each face increments
  exactly one bin.
\<close>

theorem C10_histogram_sums_to_total_faces:
  assumes "valid_mesh V F"
  shows "\<exists>low stats. analyze_face_quality_with_timing V F threshold = Some (low, stats)
           \<and> total_faces stats = length F
           \<and> dom (stats_quality_distribution stats) = set quality_labels
           \<and> histogram_total (stats_quality_distribution stats) = int (total_faces stats)"
proof -
  let ?init = "\<lparr> low_quality_faces = [], quality_values = [],
                 quality_distribution = initial_distribution \<rparr>"
  from assms obtain st' where run: "quality_loop V threshold 0 F ?init = Some st'"
    using quality_loop_total[of V F threshold 0 ?init] by (auto simp: valid_mesh_def)
  from quality_loop_histogram[OF run]
  have "histogram_total (quality_distribution st') = int (length F)"
    and "dom (quality_distribution st') = set quality_labels"
    by (simp_all add: dom_initial_distribution histogram_total_initial)
  with run show ?thesis
    by (simp add: analyze_face_quality_with_timing_def Let_def)
qed

theorem C10_witness:
  "valid_mesh [(0, 0, 0), (3, 0, 0), (0, 4, 0)] [(0, 1, 2), (2, 1, 0)]
   \<and> (\<exists>low stats.
        analyze_face_quality_with_timing [(0, 0, 0), (3, 0, 0), (0, 4, 0)]
          [(0, 1, 2), (2, 1, 0)] (3 / 10) = Some (low, stats)
        \<and> total_faces stats = 2
        \<and> histogram_total (stats_quality_distribution stats) = 2)"
proof -
  have v: "valid_mesh [(0, 0, 0), (3, 0, 0), (0, 4, 0)] [(0, 1, 2), (2, 1, 0)]"
    by (simp add: valid_mesh_def valid_face_def)
  from C10_histogram_sums_to_total_faces[OF v, of "3 / 10"] v
  show ?thesis by auto
qed

section \<open>Results about the non-manifold vertex detector\<close>

text \<open>Spec scenario 3: four open triangles that meet only at vertex \<open>0\<close>; the vertex has
  eight free edges and is reported, whatever the tolerance.\<close>

lemma non_manifold_cross_example:
  "detect_non_manifold_vertices_with_timing
     [(0, 0, 0), (1, 0, 0), (1, 1, 0), (-1, 0, 0), (-1, 1, 0), (0, -1, 0), (1, -1, 0),
      (0, 2, 0), (-1, 2, 0)]
     [(0, 1, 2), (0, 3, 4), (0, 5, 6), (0, 7, 8)] t = [0]"
  by (simp add: detect_non_manifold_vertices_with_timing_def canonical_edges_def
        free_edges_of_def vertex_free_edge_count_def EdgeEqual_def)

text \<open>
  C9. For every mesh and any two tolerance values, \<open>detect_non_manifold_vertices\<close> returns
  the same vertex list: the \<open>tolerance\<close> argument is never read.
\<close>

theorem C9_tolerance_is_ignored:
  "detect_non_manifold_vertices_with_timing V F t1 = detect_non_manifold_vertices_with_timing V F t2"
  by (simp add: detect_non_manifold_vertices_with_timing_def)

section \<open>Results about the adjacent-face detector\<close>

lemma adjacent_inner_mem:
  "p \<in> set (adjacent_inner V thr i t1 j gs pairs) \<longleftrightarrow>
     p \<in> set pairs \<or>
     (\<exists>k t2. k < length gs \<and> p = (int i, int (j + k)) \<and>
             checked_triangle V (gs ! k) = Some t2 \<and> adjacent_rule thr t1 t2)"
proof (induction gs arbitrary: j pairs)
  case Nil
  then show ?case by simp
next
  case (Cons g gs)
  have shift: "\<And>P. (\<exists>k. k < length (g # gs) \<and> P k) \<longleftrightarrow> P 0 \<or> (\<exists>k. k < length gs \<and> P (Suc k))"
    by (auto simp: less_Suc_eq_0_disj)
  show ?case
  proof (cases "checked_triangle V g")
    case None
    then show ?thesis
      using Cons.IH[of "j + 1" pairs]
      by (auto simp: less_Suc_eq_0_disj)
  next
    case (Some t2)
    show ?thesis
    proof (cases "adjacent_rule thr t1 t2")
      case True
      then have "adjacent_inner V thr i t1 j (g # gs) pairs
                 = adjacent_inner V thr i t1 (j + 1) gs (pairs @ [(int i, int j)])"
        using Some
        by (auto simp: adjacent_rule_def min_avg_edge_def centroid_distance_def Let_def)
      then show ?thesis
        using Cons.IH[of "j + 1" "pairs @ [(int i, int j)]"] Some True
        by (auto simp: less_Suc_eq_0_disj)
    next
      case False
      then have "adjacent_inner V thr i t1 j (g # gs) pairs
                 = adjacent_inner V thr i t1 (j + 1) gs pairs"
        using Some
        by (auto simp: adjacent_rule_def min_avg_edge_def centroid_distance_def Let_def
                 split: if_splits)
      then show ?thesis
        using Cons.IH[of "j + 1" pairs] Some False
        by (auto simp: less_Suc_eq_0_disj)
    qed
  qed
qed

lemma adjacent_outer_mem:
  "p \<in> set (adjacent_outer V thr i fs pairs) \<longleftrightarrow>
     p \<in> set pairs \<or>
     (\<exists>a b t1 t2. a < b \<and> b < length fs \<and> p = (int (i + a), int (i + b)) \<and>
             checked_triangle V (fs ! a) = Some t1 \<and>
             checked_triangle V (fs ! b) = Some t2 \<and> adjacent_rule thr t1 t2)"
proof (induction fs arbitrary: i pairs)
  case Nil
  then show ?case by simp
next
  case (Cons f fs)
  let ?R = "\<lambda>i fs. (\<exists>a b t1 t2. a < b \<and> b < length fs \<and> p = (int (i + a), int (i + b)) \<and>
             checked_triangle V (fs ! a) = Some t1 \<and>
             checked_triangle V (fs ! b) = Some t2 \<and> adjacent_rule thr t1 t2)"
  let ?H = "(\<exists>k t1 t2. k < length fs \<and> p = (int i, int (i + 1 + k)) \<and>
             checked_triangle V f = Some t1 \<and>
             checked_triangle V (fs ! k) = Some t2 \<and> adjacent_rule thr t1 t2)"
  have split: "?R i (f # fs) \<longleftrightarrow> ?H \<or> ?R (i + 1) fs"
  proof
    assume "?R i (f # fs)"
    then obtain a b t1 t2 where ab: "a < b" "b < length (f # fs)" "p = (int (i + a), int (i + b))"
       "checked_triangle V ((f # fs) ! a) = Some t1"
       "checked_triangle V ((f # fs) ! b) = Some t2" "adjacent_rule thr t1 t2" by blast
    from ab(1) obtain b' where b': "b = Suc b'" by (cases b) auto
    show "?H \<or> ?R (i + 1) fs"
    proof (cases a)
      case 0
      with ab b' have "?H" by auto
      then show ?thesis ..
    next
      case (Suc a')
      with ab b' have "a' < b' \<and> b' < length fs \<and> p = (int (i + 1 + a'), int (i + 1 + b')) \<and>
        checked_triangle V (fs ! a') = Some t1 \<and> checked_triangle V (fs ! b') = Some t2 \<and>
        adjacent_rule thr t1 t2" by auto
      then have "?R (i + 1) fs" by blast
      then show ?thesis ..
    qed
  next
    assume "?H \<or> ?R (i + 1) fs"
    then show "?R i (f # fs)"
    proof
      assume ?H
      then obtain k t1 t2 where "k < length fs" "p = (int i, int (i + 1 + k))"
        "checked_triangle V f = Some t1" "checked_triangle V (fs ! k) = Some t2"
        "adjacent_rule thr t1 t2" by blast
      then have "0 < Suc k \<and> Suc k < length (f # fs) \<and> p = (int (i + 0), int (i + Suc k)) \<and>
        checked_triangle V ((f # fs) ! 0) = Some t1 \<and>
        checked_triangle V ((f # fs) ! Suc k) = Some t2 \<and> adjacent_rule thr t1 t2" by simp
      then show ?thesis by blast
    next
      assume "?R (i + 1) fs"
      then obtain a b t1 t2 where "a < b" "b < length fs" "p = (int (i + 1 + a), int (i + 1 + b))"
       "checked_triangle V (fs ! a) = Some t1"
       "checked_triangle V (fs ! b) = Some t2" "adjacent_rule thr t1 t2" by blast
      then have "Suc a < Suc b \<and> Suc b < length (f # fs) \<and> p = (int (i + Suc a), int (i + Suc b)) \<and>
        checked_triangle V ((f # fs) ! Suc a) = Some t1 \<and>
        checked_triangle V ((f # fs) ! Suc b) = Some t2 \<and> adjacent_rule thr t1 t2" by simp
      then show ?thesis by blast
    qed
  qed
  show ?case
  proof (cases "checked_triangle V f")
    case None
    then have "\<not> ?H" by simp
    with None Cons.IH[of "i + 1" pairs] split show ?thesis by simp
  next
    case (Some t1)
    have "p \<in> set (adjacent_outer V thr i (f # fs) pairs) \<longleftrightarrow>
          p \<in> set (adjacent_inner V thr i t1 (i + 1) fs pairs) \<or> ?R (i + 1) fs"
      using Some Cons.IH[of "i + 1" "adjacent_inner V thr i t1 (i + 1) fs pairs"] by simp
    also have "\<dots> \<longleftrightarrow> p \<in> set pairs \<or> ?H \<or> ?R (i + 1) fs"
      using Some by (auto simp: adjacent_inner_mem)
    finally show ?thesis using split by blast
  qed
qed

lemma checked_triangle_valid:
  "valid_face V f \<Longrightarrow> checked_triangle V f = Some (face_triangle V f)"
  by (auto simp: valid_face_def checked_triangle_def face_triangle_def split: prod.splits)

lemma checked_triangle_invalid:
  "\<not> valid_face V f \<Longrightarrow> checked_triangle V f = None"
  by (auto simp: valid_face_def checked_triangle_def split: prod.splits)

text \<open>
  C5. For every mesh and every pair of faces \<open>i < j\<close> whose six vertex indices are in
  range, \<open>detect_adjacent_faces\<close> reports \<open>(i, j)\<close> exactly by the three-branch rule: with
  \<open>L\<close> the smaller of the two average edge lengths and \<open>d\<close> the distance of the centroids,
  the pair is adjacent when both are below \<open>1e-10\<close>, skipped when only \<open>L\<close> is, and otherwise
  adjacent iff \<open>d / L \<le> proximity_threshold\<close>.
\<close>

theorem C5_adjacent_three_branch_rule:
  assumes "i < j" and "j < length F"
    and "valid_face V (F ! i)" and "valid_face V (F ! j)"
  shows "(int i, int j) \<in> set (detect_adjacent_faces V F proximity_threshold) \<longleftrightarrow>
     (let L = min (average_edge_length (face_triangle V (F ! i)))
                  (average_edge_length (face_triangle V (F ! j)));
          d = norm3d (vec_sub (centroid (face_triangle V (F ! i)))
                              (centroid (face_triangle V (F ! j))))
      in if L < 1 / 10 ^ 10 \<and> d < 1 / 10 ^ 10 then True
         else if L < 1 / 10 ^ 10 then False
         else d / L \<le> proximity_threshold)"
proof -
  let ?t1 = "face_triangle V (F ! i)" and ?t2 = "face_triangle V (F ! j)"
  have "(int i, int j) \<in> set (detect_adjacent_faces V F proximity_threshold) \<longleftrightarrow>
        (\<exists>a b t1 t2. a < b \<and> b < length F \<and> (int i, int j) = (int (0 + a), int (0 + b)) \<and>
             checked_triangle V (F ! a) = Some t1 \<and>
             checked_triangle V (F ! b) = Some t2 \<and> adjacent_rule proximity_threshold t1 t2)"
    unfolding detect_adjacent_faces_def by (subst adjacent_outer_mem) simp
  also have "\<dots> \<longleftrightarrow> adjacent_rule proximity_threshold ?t1 ?t2"
    using assms by (auto simp: checked_triangle_valid)
  finally show ?thesis
    by (simp add: adjacent_rule_def min_avg_edge_def centroid_distance_def Let_def)
qed


lemma sqrt_small_squares:
  "sqrt 1 = 1" "sqrt 9 = 3" "sqrt 16 = 4" "sqrt 25 = 5"
  using real_sqrt_abs[of 3] real_sqrt_abs[of 4] real_sqrt_abs[of 5] by simp_all

theorem C5_witness:
  "(0::nat) < 1
   \<and> 1 < length [(0, 1, 2), (3, 4, 5) :: face_row]
   \<and> valid_face [(0, 0, 0), (3, 0, 0), (0, 4, 0), (0, 0, 1), (3, 0, 1), (0, 4, 1)] (0, 1, 2)
   \<and> valid_face [(0, 0, 0), (3, 0, 0), (0, 4, 0), (0, 0, 1), (3, 0, 1), (0, 4, 1)] (3, 4, 5)
   \<and> (0, 1) \<in> set (detect_adjacent_faces
          [(0, 0, 0), (3, 0, 0), (0, 4, 0), (0, 0, 1), (3, 0, 1), (0, 4, 1)]
          [(0, 1, 2), (3, 4, 5)] (1 / 2))
   \<and> (0, 1) \<notin> set (detect_adjacent_faces
          [(0, 0, 0), (3, 0, 0), (0, 4, 0), (0, 0, 1), (3, 0, 1), (0, 4, 1)]
          [(0, 1, 2), (3, 4, 5)] (1 / 5))"
proof -
  let ?V = "[(0, 0, 0), (3, 0, 0), (0, 4, 0), (0, 0, 1), (3, 0, 1), (0, 4, 1)] :: vertex_row list"
  let ?F = "[(0, 1, 2), (3, 4, 5)] :: face_row list"
  have v0: "valid_face ?V (?F ! 0)" and v1: "valid_face ?V (?F ! 1)"
    by (simp_all add: valid_face_def)
  have avg0: "average_edge_length (face_triangle ?V (0, 1, 2)) = 4"
    and avg1: "average_edge_length (face_triangle ?V (3, 4, 5)) = 4"
    by (simp_all add: average_edge_length_def face_triangle_def to_vec_def vec_sub_def
          norm3d_def sqrt_small_squares)
  have d: "norm3d (vec_sub (centroid (face_triangle ?V (0, 1, 2)))
                           (centroid (face_triangle ?V (3, 4, 5)))) = 1"
    by (simp add: centroid_def adj_vec_div_def face_triangle_def to_vec_def vec_sub_def
          vec_add_def norm3d_def)
  have lt: "(0::nat) < 1" and len: "1 < length ?F" by simp_all
  from C5_adjacent_three_branch_rule[OF lt len v0 v1, of "1 / 2"]
       C5_adjacent_three_branch_rule[OF lt len v0 v1, of "1 / 5"]
  have "(0, 1) \<in> set (detect_adjacent_faces ?V ?F (1 / 2))"
    and "(0, 1) \<notin> set (detect_adjacent_faces ?V ?F (1 / 5))"
    by (simp_all add: avg0 avg1 d)
  with v0 v1 show ?thesis by simp
qed

section \<open>Results about the separating-axis test\<close>

lemma ALMOST_ZERO_pos: "0 < ALMOST_ZERO"
  by (simp add: ALMOST_ZERO_def)

lemma norm3d_nonneg: "0 \<le> norm3d a"
  by (simp add: norm3d_def)

lemma norm3d_sq: "norm3d a * norm3d a = vx a * vx a + vy a * vy a + vz a * vz a"
proof -
  have "0 \<le> vx a * vx a + vy a * vy a + vz a * vz a" by (simp add: add_nonneg_nonneg)
  then show ?thesis by (simp add: norm3d_def)
qed

lemma norm3d_less_iff:
  assumes "0 < c"
  shows "norm3d a < c \<longleftrightarrow> vx a * vx a + vy a * vy a + vz a * vz a < c * c"
proof -
  have c: "sqrt (c * c) = c" using assms by simp
  have "norm3d a < sqrt (c * c) \<longleftrightarrow> vx a * vx a + vy a * vy a + vz a * vz a < c * c"
    unfolding norm3d_def by (rule real_sqrt_less_iff)
  then show ?thesis by (simp only: c)
qed

lemma norm3d_ge_component:
  "\<bar>vx a\<bar> \<le> norm3d a" "\<bar>vy a\<bar> \<le> norm3d a" "\<bar>vz a\<bar> \<le> norm3d a"
proof -
  have s: "\<And>u S::real. u * u \<le> S \<Longrightarrow> \<bar>u\<bar> \<le> sqrt S"
  proof -
    fix u S :: real assume "u * u \<le> S"
    then have "sqrt (u * u) \<le> sqrt S" by (simp only: real_sqrt_le_iff)
    then show "\<bar>u\<bar> \<le> sqrt S" by simp
  qed
  show "\<bar>vx a\<bar> \<le> norm3d a" unfolding norm3d_def by (rule s) (simp add: add_nonneg_nonneg)
  show "\<bar>vy a\<bar> \<le> norm3d a" unfolding norm3d_def by (rule s) (simp add: add_nonneg_nonneg)
  show "\<bar>vz a\<bar> \<le> norm3d a" unfolding norm3d_def by (rule s) (simp add: add_nonneg_nonneg)
qed

lemma not_isZero_norm: "\<not> isZero c \<Longrightarrow> \<not> norm3d c < ALMOST_ZERO"
  using norm3d_ge_component[of c] by (auto simp: isZero_def)

lemma isZero_Zero: "isZero Zero"
  by (simp add: isZero_def Zero_def ALMOST_ZERO_pos)

text \<open>A vector divided by its own norm is not component-wise small.\<close>

lemma unit_not_isZero:
  assumes "\<not> norm3d c < ALMOST_ZERO"
  shows "\<not> isZero (Vector3d (vx c / norm3d c) (vy c / norm3d c) (vz c / norm3d c))"
proof
  let ?n = "norm3d c"
  assume z: "isZero (Vector3d (vx c / ?n) (vy c / ?n) (vz c / ?n))"
  from assms ALMOST_ZERO_pos have n: "0 < ?n" by simp
  have small: "\<And>u::real. \<bar>u / ?n\<bar> < ALMOST_ZERO \<Longrightarrow> u * u \<le> (?n * ?n) / 4"
  proof -
    fix u :: real assume "\<bar>u / ?n\<bar> < ALMOST_ZERO"
    then have "\<bar>u\<bar> < ALMOST_ZERO * ?n" using n by (simp add: pos_divide_less_eq)
    also have "\<dots> \<le> ?n / 2" using n by (simp add: ALMOST_ZERO_def)
    finally have "\<bar>u\<bar> \<le> ?n / 2" by simp
    then have "\<bar>u\<bar> * \<bar>u\<bar> \<le> (?n / 2) * (?n / 2)" by (intro mult_mono) simp_all
    then show "u * u \<le> (?n * ?n) / 4" by simp
  qed
  from z have zx: "\<bar>vx c / ?n\<bar> < ALMOST_ZERO" and zy: "\<bar>vy c / ?n\<bar> < ALMOST_ZERO"
    and zz: "\<bar>vz c / ?n\<bar> < ALMOST_ZERO"
    unfolding isZero_def by simp_all
  from small[OF zx] small[OF zy] small[OF zz] have "?n * ?n \<le> 3 * ((?n * ?n) / 4)" by (simp add: norm3d_sq)
  moreover have "0 < ?n * ?n" using n by simp
  ultimately show False by simp
qed

text \<open>Dividing the axis by a positive number does not change whether the projections are
  apart.\<close>

lemma intervals_apart_scale:
  assumes "0 < k"
  shows "intervals_apart t1 t2 (Vector3d (vx c / k) (vy c / k) (vz c / k)) = intervals_apart t1 t2 c"
proof -
  have d: "\<And>v. dot (Vector3d (vx c / k) (vy c / k) (vz c / k)) v = dot c v / k"
    by (simp add: dot_def add_divide_distrib)
  have mn: "\<And>a b::real. min (a / k) (b / k) = min a b / k"
    using assms by (simp add: min_def divide_le_cancel)
  have mx: "\<And>a b::real. max (a / k) (b / k) = max a b / k"
    using assms by (simp add: max_def divide_le_cancel)
  have "intervals_apart t1 t2 (Vector3d (vx c / k) (vy c / k) (vz c / k)) \<longleftrightarrow>
        snd (project_triangle t1 c) / k < fst (project_triangle t2 c) / k \<or>
        snd (project_triangle t2 c) / k < fst (project_triangle t1 c) / k"
    by (simp add: intervals_apart_def project_triangle_def Let_def d mn mx)
  also have "\<dots> \<longleftrightarrow> intervals_apart t1 t2 c"
    using assms by (simp add: intervals_apart_def Let_def divide_less_cancel)
  finally show ?thesis .
qed

lemma normal_axis_test:
  "(\<not> isZero (get_normal t) \<and> check_separation t1 t2 (get_normal t)) \<longleftrightarrow>
   (\<not> norm3d (raw_normal t) < ALMOST_ZERO \<and> intervals_apart t1 t2 (raw_normal t))"
proof (cases "norm3d (raw_normal t) < ALMOST_ZERO")
  case True
  then show ?thesis by (simp add: get_normal_def Let_def isZero_Zero)
next
  case False
  with ALMOST_ZERO_pos have n: "0 < norm3d (raw_normal t)" by simp
  from False n have g: "get_normal t = Vector3d (vx (raw_normal t) / norm3d (raw_normal t))
      (vy (raw_normal t) / norm3d (raw_normal t)) (vz (raw_normal t) / norm3d (raw_normal t))"
    by (simp add: get_normal_def Let_def vec_div_def)
  show ?thesis
    using False unit_not_isZero[OF False] intervals_apart_scale[OF n]
    by (simp add: g check_separation_def)
qed

lemma edge_axis_test:
  "(\<not> isZero c \<and> check_separation t1 t2 (normalized c)) \<longleftrightarrow>
   (\<not> isZero c \<and> intervals_apart t1 t2 c)"
proof (cases "isZero c")
  case True
  then show ?thesis by simp
next
  case False
  from not_isZero_norm[OF False] have nz: "\<not> norm3d c < ALMOST_ZERO" .
  with ALMOST_ZERO_pos have n: "0 < norm3d c" by simp
  from nz n have g: "normalized c = Vector3d (vx c / norm3d c) (vy c / norm3d c) (vz c / norm3d c)"
    by (simp add: normalized_def Let_def vec_div_def)
  show ?thesis
    using False unit_not_isZero[OF nz] intervals_apart_scale[OF n]
    by (simp add: g check_separation_def)
qed

lemma edge_loop_inner_iff:
  "edge_loop_inner t1 t2 e1 es \<longleftrightarrow>
     \<not> list_ex (\<lambda>e2. \<not> isZero (cross e1 e2) \<and> intervals_apart t1 t2 (cross e1 e2)) es"
  by (induction es) (auto simp: Let_def edge_axis_test)

lemma edge_loop_outer_iff:
  "edge_loop_outer t1 t2 es1 es2 \<longleftrightarrow>
     \<not> list_ex (\<lambda>e1. list_ex (\<lambda>e2. \<not> isZero (cross e1 e2) \<and> intervals_apart t1 t2 (cross e1 e2)) es2) es1"
  by (induction es1) (auto simp: edge_loop_inner_iff)

lemma check_triangle_intersection_iff:
  "check_triangle_intersection t1 t2 \<longleftrightarrow>
     \<not> (\<not> norm3d (raw_normal t1) < ALMOST_ZERO \<and> intervals_apart t1 t2 (raw_normal t1))
   \<and> \<not> (\<not> norm3d (raw_normal t2) < ALMOST_ZERO \<and> intervals_apart t1 t2 (raw_normal t2))
   \<and> \<not> list_ex (\<lambda>e1. list_ex (\<lambda>e2. \<not> isZero (cross e1 e2) \<and> intervals_apart t1 t2 (cross e1 e2))
                     (get_edges t2)) (get_edges t1)"
  unfolding check_triangle_intersection_def Let_def normal_axis_test edge_loop_outer_iff
  by auto

lemma norm3d_less_ALMOST_ZERO:
  "norm3d a < ALMOST_ZERO \<longleftrightarrow> vx a * vx a + vy a * vy a + vz a * vz a < 1 / 10 ^ 16"
  using norm3d_less_iff[OF ALMOST_ZERO_pos, of a] by (simp add: ALMOST_ZERO_def)

lemma tiny_code_intersects: "check_triangle_intersection tinyA tinyB"
  unfolding check_triangle_intersection_iff norm3d_less_ALMOST_ZERO
  by (simp add: tinyA_def tinyB_def raw_normal_def get_edges_def cross_def vec_sub_def
        isZero_def ALMOST_ZERO_def)

lemma tiny_spec_separated: "spec_separated tinyA tinyB"
proof -
  let ?c = "cross (vec_sub (tv1 tinyA) (tv0 tinyA)) (vec_sub (tv1 tinyB) (tv0 tinyB))"
  have c: "?c = Vector3d 0 (- (9 / 10 ^ 9)) (9 / 10 ^ 9)"
    by (simp add: tinyA_def tinyB_def cross_def vec_sub_def)
  have n: "\<not> norm3d ?c < ALMOST_ZERO"
    unfolding c norm3d_less_ALMOST_ZERO by simp
  have a: "intervals_apart tinyA tinyB ?c"
    unfolding c
    by (simp add: intervals_apart_def project_triangle_def Let_def dot_def tinyA_def tinyB_def)
  have "?c \<in> set (tested_axes tinyA tinyB)"
    by (simp add: tested_axes_def get_edges_def)
  with n a show ?thesis
    unfolding spec_separated_def list_ex_iff by blast
qed

text \<open>
  C4, as stated, fails: for \<open>tinyA\<close> and \<open>tinyB\<close> the cross product of the first edges is
  \<open>(0, -9e-9, 9e-9)\<close>, of norm about \<open>1.27e-8\<close>, and the projections on it are apart, so the
  test worded with the norm separates the pair; \<open>check_triangle_intersection\<close> skips that
  axis, because \<open>isZero\<close> looks at the components, and reports an intersection.
\<close>

theorem C4_counterexample:
  "check_triangle_intersection tinyA tinyB \<and> spec_separated tinyA tinyB"
  using tiny_code_intersects tiny_spec_separated by simp

text \<open>
  C4, amended. \<open>check_triangle_intersection\<close> declares two triangles separated if and only if
  the projection intervals are apart (\<open>aMax < bMin\<close> or \<open>bMax < aMin\<close>) on a tested axis,
  where the normal of a triangle is tested exactly when the norm of the cross product of its
  edges is at least \<open>1e-8\<close>, and an edge cross product is tested exactly when one of its three
  components is at least \<open>1e-8\<close> in absolute value.
\<close>

theorem C4_separated_iff_tested_axis_apart:
  "\<not> check_triangle_intersection tri1 tri2 \<longleftrightarrow>
     (ALMOST_ZERO \<le> norm3d (raw_normal tri1) \<and> intervals_apart tri1 tri2 (raw_normal tri1))
   \<or> (ALMOST_ZERO \<le> norm3d (raw_normal tri2) \<and> intervals_apart tri1 tri2 (raw_normal tri2))
   \<or> list_ex (\<lambda>e1. list_ex (\<lambda>e2.
          (ALMOST_ZERO \<le> \<bar>vx (cross e1 e2)\<bar> \<or> ALMOST_ZERO \<le> \<bar>vy (cross e1 e2)\<bar>
             \<or> ALMOST_ZERO \<le> \<bar>vz (cross e1 e2)\<bar>)
          \<and> intervals_apart tri1 tri2 (cross e1 e2)) (get_edges tri2)) (get_edges tri1)"
proof -
  have z: "\<And>c. (\<not> isZero c) = (ALMOST_ZERO \<le> \<bar>vx c\<bar> \<or> ALMOST_ZERO \<le> \<bar>vy c\<bar> \<or> ALMOST_ZERO \<le> \<bar>vz c\<bar>)"
    by (auto simp: isZero_def)
  show ?thesis
    unfolding check_triangle_intersection_iff z by (auto simp: not_less)
qed

section \<open>Results about the overlapping-edge detector\<close>

lemma bucket_append_nonempty:
  "list_all (\<lambda>b. snd b \<noteq> []) m \<Longrightarrow> list_all (\<lambda>b. snd b \<noteq> []) (bucket_append eq k v m)"
  by (induction m) auto

lemma subseq_snoc: "subseq vs xs \<Longrightarrow> subseq vs (xs @ [v])"
  using list_emb_append_mono[of "(=)" vs xs "[]" "[v]"] by simp

lemma subseq_snoc_both: "subseq vs xs \<Longrightarrow> subseq (vs @ [v]) (xs @ [v])"
  using list_emb_append_mono[of "(=)" vs xs "[v]" "[v]"] by simp

lemma bucket_append_subseq:
  "list_all (\<lambda>b. subseq (snd b) xs) m \<Longrightarrow>
   list_all (\<lambda>b. subseq (snd b) (xs @ [v])) (bucket_append eq k v m)"
proof (induction m)
  case Nil
  then show ?case by (simp add: subseq_singleton_left)
next
  case (Cons b m)
  obtain k' vs where b: "b = (k', vs)" by (cases b)
  from Cons.prems b have vs: "subseq vs xs" and rest: "list_all (\<lambda>b. subseq (snd b) xs) m"
    by simp_all
  have 3: "list_all (\<lambda>b. subseq (snd b) (xs @ [v])) m"
    using rest by (induction m) (auto intro: subseq_snoc)
  show ?case
    using subseq_snoc_both[OF vs] subseq_snoc[OF vs] 3 Cons.IH[OF rest] by (simp add: b)
qed

lemma bucket_append_mset:
  "mset (concat (map snd (bucket_append eq k v m))) = mset (concat (map snd m)) + {#v#}"
  by (induction m) auto

text \<open>The probe puts a value in the first bucket whose stored key is found for the value's
  key. This needs the key equality to accept a key for itself.\<close>

lemma bucket_append_all:
  "list_all (\<lambda>b. list_all P (snd b)) m \<Longrightarrow> P v \<Longrightarrow>
   list_all (\<lambda>b. list_all P (snd b)) (bucket_append eq k v m)"
  by (induction m) auto

lemma bucket_append_first_match:
  assumes "key v = Some k" and "eq k k"
  shows "first_match_inv eq key m \<Longrightarrow> first_match_inv eq key (bucket_append eq k v m)"
proof (induction m)
  case Nil
  from assms show ?case by simp
next
  case (Cons b m)
  obtain k' vs where b: "b = (k', vs)" by (cases b)
  show ?case
  proof (cases "eq k' k")
    case True
    with Cons.prems assms show ?thesis by (simp add: b)
  next
    case False
    let ?P = "\<lambda>v. map_option (eq k') (key v) = Some False"
    from Cons.prems b have later: "list_all (\<lambda>b. list_all ?P (snd b)) m"
      and rest: "first_match_inv eq key m" by simp_all
    from False assms have "?P v" by simp
    from bucket_append_all[of ?P, OF later this]
    have "list_all (\<lambda>b. list_all ?P (snd b)) (bucket_append eq k v m)" .
    with Cons.prems Cons.IH[OF rest] False show ?thesis by (simp add: b)
  qed
qed

lemma first_match_inv_bucket:
  "first_match_inv eq key m \<Longrightarrow> b \<in> set m \<Longrightarrow>
   snd b \<noteq> [] \<and> key (hd (snd b)) = Some (fst b)
   \<and> list_all (\<lambda>v. map_option (eq (fst b)) (key v) = Some True) (snd b)"
  by (induction m) auto

lemma first_match_inv_cross:
  "first_match_inv eq key m \<Longrightarrow> b \<in> set m \<Longrightarrow> v \<in> set (snd b) \<Longrightarrow>
   b' \<in> set m \<Longrightarrow> v' \<in> set (snd b') \<Longrightarrow>
   map_option (eq (fst b)) (key v') = Some True \<Longrightarrow>
   map_option (eq (fst b')) (key v) = Some True \<Longrightarrow> v' \<in> set (snd b)"
proof (induction m)
  case Nil
  then show ?case by simp
next
  case (Cons c m)
  obtain k vs where c: "c = (k, vs)" by (cases c)
  from Cons.prems(1) c
  have later: "\<forall>d \<in> set m. \<forall>u \<in> set (snd d). map_option (eq k) (key u) = Some False"
    and rest: "first_match_inv eq key m"
    by (auto simp: list_all_iff)
  consider (hh) "b = c" "b' = c" | (hl) "b = c" "b' \<in> set m" | (lh) "b \<in> set m" "b' = c"
    | (ll) "b \<in> set m" "b' \<in> set m"
    using Cons.prems(2,4) by auto
  then show ?case
  proof cases
    case hh
    with Cons.prems show ?thesis by simp
  next
    case hl
    with later Cons.prems(5) c have "map_option (eq (fst b)) (key v') = Some False" by simp
    with Cons.prems(6) show ?thesis by simp
  next
    case lh
    with later Cons.prems(3) c have "map_option (eq (fst b')) (key v) = Some False" by simp
    with Cons.prems(7) show ?thesis by simp
  next
    case ll
    from Cons.IH[OF rest ll(1) Cons.prems(3) ll(2) Cons.prems(5,6,7)] show ?thesis .
  qed
qed

lemma first_match_inv_same_key:
  assumes "first_match_inv eq key m" and "b \<in> set m" and "v \<in> set (snd b)"
    and "b' \<in> set m" and "v' \<in> set (snd b')" and "key v' = key v"
  shows "v' \<in> set (snd b)"
proof -
  from first_match_inv_bucket[OF assms(1,2)] assms(3)
  have 1: "map_option (eq (fst b)) (key v) = Some True" by (simp add: list_all_iff)
  from first_match_inv_bucket[OF assms(1,4)] assms(5)
  have 2: "map_option (eq (fst b')) (key v') = Some True" by (simp add: list_all_iff)
  from 1 2 assms(6) first_match_inv_cross[OF assms(1-5)] show ?thesis by simp
qed

lemma first_match_inv_earlier:
  "first_match_inv eq key m \<Longrightarrow> j < length m \<Longrightarrow> i < j \<Longrightarrow> v \<in> set (snd (m ! j)) \<Longrightarrow>
   map_option (eq (fst (m ! i))) (key v) = Some False"
proof (induction m arbitrary: i j)
  case Nil
  then show ?case by simp
next
  case (Cons c m)
  obtain k vs where c: "c = (k, vs)" by (cases c)
  from Cons.prems(1) c
  have later: "\<forall>d \<in> set m. \<forall>u \<in> set (snd d). map_option (eq k) (key u) = Some False"
    and rest: "first_match_inv eq key m"
    by (auto simp: list_all_iff)
  from Cons.prems(3) obtain j' where j: "j = Suc j'" by (cases j) auto
  with Cons.prems(2,4) have j': "j' < length m" and v: "v \<in> set (snd (m ! j'))" by simp_all
  show ?case
  proof (cases i)
    case 0
    from j' have "m ! j' \<in> set m" by simp
    with later v 0 c show ?thesis by simp
  next
    case (Suc i')
    with Cons.prems(3) j have "i' < j'" by simp
    from Cons.IH[OF rest j' this v] Suc show ?thesis by simp
  qed
qed

lemma EdgeKey_found_refl: "EdgeKey_found hll unspec k k"
  by (simp add: EdgeKey_found_def EdgeKey_eq_def)

lemma insert_edges_inv:
  "insert_edges hll unspec V es m = Some m' \<Longrightarrow> edge_map_inv m xs \<Longrightarrow> edge_map_inv m' (xs @ es)"
proof (induction es arbitrary: m xs)
  case Nil
  then show ?case by simp
next
  case (Cons e es)
  from Cons.prems(1) obtain key where key: "edge_key_of V e = Some key"
    and step: "insert_edges hll unspec V es (bucket_append (EdgeKey_found hll unspec) key e m) = Some m'"
    by (auto split: option.splits)
  have "edge_map_inv (bucket_append (EdgeKey_found hll unspec) key e m) (xs @ [e])"
    using Cons.prems(2)
    by (simp add: edge_map_inv_def bucket_append_mset bucket_append_nonempty bucket_append_subseq)
  from Cons.IH[OF step this] show ?case by simp
qed

lemma collect_edge_map_inv:
  "collect_edge_map hll unspec V fs m = Some m' \<Longrightarrow> edge_map_inv m xs \<Longrightarrow>
   edge_map_inv m' (xs @ scan_order fs)"
proof (induction fs arbitrary: m xs)
  case Nil
  then show ?case by (simp add: scan_order_def)
next
  case (Cons f fs)
  from Cons.prems(1) obtain m1 where m1: "insert_edges hll unspec V (face_edge_pairs f) m = Some m1"
    and step: "collect_edge_map hll unspec V fs m1 = Some m'"
    by (auto split: option.splits)
  from Cons.IH[OF step insert_edges_inv[OF m1 Cons.prems(2)]]
  show ?case by (simp add: scan_order_def)
qed

lemma insert_edges_first_match:
  "insert_edges hll unspec V es m = Some m' \<Longrightarrow>
   first_match_inv (EdgeKey_found hll unspec) (edge_key_of V) m \<Longrightarrow>
   first_match_inv (EdgeKey_found hll unspec) (edge_key_of V) m'"
proof (induction es arbitrary: m)
  case Nil
  then show ?case by simp
next
  case (Cons e es)
  from Cons.prems(1) obtain key where key: "edge_key_of V e = Some key"
    and step: "insert_edges hll unspec V es (bucket_append (EdgeKey_found hll unspec) key e m) = Some m'"
    by (auto split: option.splits)
  from bucket_append_first_match[of "edge_key_of V", OF key EdgeKey_found_refl Cons.prems(2)]
  have "first_match_inv (EdgeKey_found hll unspec) (edge_key_of V)
          (bucket_append (EdgeKey_found hll unspec) key e m)" .
  from Cons.IH[OF step this] show ?case .
qed

lemma collect_edge_map_first_match:
  "collect_edge_map hll unspec V fs m = Some m' \<Longrightarrow>
   first_match_inv (EdgeKey_found hll unspec) (edge_key_of V) m \<Longrightarrow>
   first_match_inv (EdgeKey_found hll unspec) (edge_key_of V) m'"
proof (induction fs arbitrary: m)
  case Nil
  then show ?case by simp
next
  case (Cons f fs)
  from Cons.prems(1) obtain m1 where m1: "insert_edges hll unspec V (face_edge_pairs f) m = Some m1"
    and step: "collect_edge_map hll unspec V fs m1 = Some m'"
    by (auto split: option.splits)
  from Cons.IH[OF step insert_edges_first_match[OF m1 Cons.prems(2)]] show ?case .
qed

lemma insert_edges_total:
  "\<forall>e \<in> set es. 0 \<le> fst e \<and> fst e < int (length V) \<and> 0 \<le> snd e \<and> snd e < int (length V) \<Longrightarrow>
   \<exists>m'. insert_edges hll unspec V es m = Some m'"
proof (induction es arbitrary: m)
  case Nil
  then show ?case by simp
next
  case (Cons e es)
  obtain a b where e: "e = (a, b)" by (cases e)
  with Cons.prems have "0 \<le> a" "a < int (length V)" "0 \<le> b" "b < int (length V)" by simp_all
  then have "\<exists>key. edge_key_of V e = Some key"
    unfolding e by (simp add: edge_key_of_def vertex_at_def split: prod.splits)
  with Cons show ?case by auto
qed

lemma collect_edge_map_total:
  "list_all (valid_face V) fs \<Longrightarrow> \<exists>m'. collect_edge_map hll unspec V fs m = Some m'"
proof (induction fs arbitrary: m)
  case Nil
  then show ?case by simp
next
  case (Cons f fs)
  then have "valid_face V f" by simp
  then have "\<forall>e \<in> set (face_edge_pairs f).
     0 \<le> fst e \<and> fst e < int (length V) \<and> 0 \<le> snd e \<and> snd e < int (length V)"
    by (auto simp: valid_face_def face_edge_pairs_def split: prod.splits)
  from insert_edges_total[OF this] obtain m1 where
    "insert_edges hll unspec V (face_edge_pairs f) m = Some m1" by blast
  with Cons show ?case by simp
qed

text \<open>The key that the code builds holds the six numbers of the specification's geometric
  key, and \<open>operator==\<close> is the comparison with tolerance \<open>1e-5\<close> on them.\<close>

lemma edge_key_of_box:
  "edge_key_of V e = Some k \<Longrightarrow> [x1 k, y1 k, z1 k, x2 k, y2 k, z2 k] = geometric_box V e"
  by (auto simp: edge_key_of_def vertex_at_def geometric_box_def make_EdgeKey_def
           split: prod.splits option.splits if_splits)

lemma geometric_box_reversed: "geometric_box V (a, b) = geometric_box V (b, a)"
  by (simp add: geometric_box_def min.commute max.commute split: prod.splits)

lemma EdgeKey_eq_within_tolerance:
  "EdgeKey_eq k k' =
   within_tolerance [x1 k, y1 k, z1 k, x2 k, y2 k, z2 k] [x1 k', y1 k', z1 k', x2 k', y2 k', z2 k']"
  by (simp add: EdgeKey_eq_def within_tolerance_def)

lemma same_box_same_key:
  assumes "edge_key_of V e = Some k" and "edge_key_of V e' = Some k'"
    and "geometric_box V e = geometric_box V e'"
  shows "k = k'"
proof -
  from edge_key_of_box[OF assms(1)] edge_key_of_box[OF assms(2)] assms(3)
  have "[x1 k, y1 k, z1 k, x2 k, y2 k, z2 k] = [x1 k', y1 k', z1 k', x2 k', y2 k', z2 k']"
    by simp
  then show ?thesis by simp
qed

lemma key_accepts_found:
  assumes "edge_key_of V a = Some ka" and "edge_key_of V e = Some ke"
  shows "key_accepts hll unspec V a e = EdgeKey_found hll unspec ka ke"
  unfolding key_accepts_def EdgeKey_found_def EdgeKey_eq_within_tolerance
    edge_key_of_box[OF assms(1)] edge_key_of_box[OF assms(2)]
  by (simp add: assms)

text \<open>
  C8. For every mesh whose vertex indices are in range, \<open>detect_overlapping_edges\<close> returns,
  and its output has, in the iteration order of the hash table, one entry for each bucket of
  the geometric-key table that holds more than two face-edge incidences, namely the first pair
  of that bucket. Every bucket is non-empty and lists its incidences in the order of the scan
  (faces by index, the edges of a face as \<open>(v1, v2), (v2, v3), (v3, v1)\<close>), so the first pair
  of a bucket is the one appended first; the buckets together hold every incidence exactly
  once. The buckets are those of the geometric edge key: an incidence lies in the first bucket,
  in order of creation, whose first incidence accepts it, that is, whose six key numbers (per
  coordinate the smaller and the larger value of the two end points) are within \<open>1e-5\<close> of
  its own and whose hash value is its own; and two incidences with the same six key numbers,
  such as \<open>(a, b)\<close> and \<open>(b, a)\<close>, are in the same bucket.
\<close>

theorem C8_overlapping_edges_first_of_bucket:
  assumes "valid_mesh V F"
  shows "\<exists>edge_map.
     collect_edge_map hll unspec V F [] = Some edge_map
   \<and> detect_overlapping_edges_with_timing hll unspec V F tolerance
       = Some (image_mset (\<lambda>bucket. hd (snd bucket))
                 (filter_mset (\<lambda>bucket. length (snd bucket) > 2) (mset edge_map)))
   \<and> list_all (\<lambda>bucket. snd bucket \<noteq> []) edge_map
   \<and> list_all (\<lambda>bucket. subseq (snd bucket) (scan_order F)) edge_map
   \<and> mset (concat (map snd edge_map)) = mset (scan_order F)
   \<and> (\<forall>bucket \<in> set edge_map. \<forall>e \<in> set (snd bucket).
        key_accepts hll unspec V (hd (snd bucket)) e)
   \<and> (\<forall>j < length edge_map. \<forall>i < j. \<forall>e \<in> set (snd (edge_map ! j)).
        \<not> key_accepts hll unspec V (hd (snd (edge_map ! i))) e)
   \<and> (\<forall>e \<in> set (scan_order F). \<forall>e' \<in> set (scan_order F).
        geometric_box V e = geometric_box V e' \<longrightarrow>
        (\<exists>bucket \<in> set edge_map. e \<in> set (snd bucket) \<and> e' \<in> set (snd bucket)))"
proof -
  let ?found = "EdgeKey_found hll unspec"
  let ?key = "edge_key_of V"
  from assms obtain m where m: "collect_edge_map hll unspec V F [] = Some m"
    using collect_edge_map_total[of V F hll unspec "[]"] by (auto simp: valid_mesh_def)
  have "edge_map_inv [] []" by (simp add: edge_map_inv_def)
  from collect_edge_map_inv[OF m this] have inv: "edge_map_inv m (scan_order F)" by simp
  have "first_match_inv ?found ?key []" by simp
  from collect_edge_map_first_match[OF m this] have fm: "first_match_inv ?found ?key m" .
  have member: "\<exists>ke. ?key e = Some ke \<and> ?found (fst b) ke \<and> ?key (hd (snd b)) = Some (fst b)"
    if "b \<in> set m" "e \<in> set (snd b)" for b e
    using first_match_inv_bucket[OF fm that(1)] that(2)
    by (auto simp: list_all_iff)
  have accepted: "key_accepts hll unspec V (hd (snd b)) e"
    if "b \<in> set m" "e \<in> set (snd b)" for b e
  proof -
    from member[OF that] obtain ke where ke: "?key e = Some ke" and f: "?found (fst b) ke"
      and hd: "?key (hd (snd b)) = Some (fst b)" by blast
    from f show ?thesis unfolding key_accepts_found[OF hd ke] .
  qed
  have earlier: "\<not> key_accepts hll unspec V (hd (snd (m ! i))) e"
    if "j < length m" "i < j" "e \<in> set (snd (m ! j))" for i j e
  proof -
    from that(1,2) have mi: "m ! i \<in> set m" and mj: "m ! j \<in> set m" by simp_all
    from member[OF mj that(3)] obtain ke where ke: "?key e = Some ke" by blast
    from first_match_inv_bucket[OF fm mi] have hd: "?key (hd (snd (m ! i))) = Some (fst (m ! i))"
      by simp
    from first_match_inv_earlier[OF fm that] ke have "\<not> ?found (fst (m ! i)) ke" by simp
    then show ?thesis unfolding key_accepts_found[OF hd ke] .
  qed
  have same: "\<exists>b \<in> set m. e \<in> set (snd b) \<and> e' \<in> set (snd b)"
    if "e \<in> set (scan_order F)" "e' \<in> set (scan_order F)"
       "geometric_box V e = geometric_box V e'" for e e'
  proof -
    from inv have "mset (concat (map snd m)) = mset (scan_order F)"
      by (simp add: edge_map_inv_def)
    from mset_eq_setD[OF this] have "set (scan_order F) = (\<Union>b \<in> set m. set (snd b))" by simp
    with that(1,2) have "e \<in> (\<Union>b \<in> set m. set (snd b))" "e' \<in> (\<Union>b \<in> set m. set (snd b))"
      by simp_all
    then obtain b b' where b: "b \<in> set m" "e \<in> set (snd b)"
      and b': "b' \<in> set m" "e' \<in> set (snd b')" by blast
    from member[OF b] obtain ke where ke: "?key e = Some ke" by blast
    from member[OF b'] obtain ke' where ke': "?key e' = Some ke'" by blast
    from same_box_same_key[OF ke ke' that(3)] ke ke' have "?key e' = ?key e" by simp
    from first_match_inv_same_key[OF fm b b' this] b show ?thesis by blast
  qed
  from m inv have "detect_overlapping_edges_with_timing hll unspec V F tolerance
       = Some (image_mset (\<lambda>bucket. hd (snd bucket))
                 (filter_mset (\<lambda>bucket. length (snd bucket) > 2) (mset m)))
   \<and> list_all (\<lambda>bucket. snd bucket \<noteq> []) m
   \<and> list_all (\<lambda>bucket. subseq (snd bucket) (scan_order F)) m
   \<and> mset (concat (map snd m)) = mset (scan_order F)"
    by (simp add: detect_overlapping_edges_with_timing_def overlapping_of_def edge_map_inv_def)
  with m accepted earlier same show ?thesis by blast
qed

text \<open>The witness is spec scenario 5, three triangles on one common edge, the second
  triangle traversing the edge backwards, with the identity as \<open>std::hash<long long>\<close>: the
  three incidences \<open>(0, 1)\<close>, \<open>(1, 0)\<close>, \<open>(0, 1)\<close> share a bucket and the edge is reported
  once, as \<open>(0, 1)\<close>.\<close>

theorem C8_witness:
  "valid_mesh fanV fanF
   \<and> detect_overlapping_edges_with_timing std_hash llround_overflow fanV fanF (1 / 10 ^ 5)
       = Some {#(0, 1)#}
   \<and> (\<exists>edge_map.
        collect_edge_map std_hash llround_overflow fanV fanF [] = Some edge_map
        \<and> image_mset (\<lambda>bucket. hd (snd bucket))
            (filter_mset (\<lambda>bucket. length (snd bucket) > 2) (mset edge_map)) = {#(0, 1)#}
        \<and> mset (concat (map snd edge_map))
            = mset [(0, 1), (1, 2), (2, 0), (1, 0), (0, 3), (3, 1), (0, 1), (1, 4), (4, 0)]
        \<and> list_ex (\<lambda>bucket. (0, 1) \<in> set (snd bucket) \<and> (1, 0) \<in> set (snd bucket)) edge_map)"
proof -
  have v: "valid_mesh fanV fanF"
    by (simp add: valid_mesh_def valid_face_def fanV_def fanF_def)
  have run: "detect_overlapping_edges_with_timing std_hash llround_overflow fanV fanF (1 / 10 ^ 5)
      = Some {#(0, 1)#}"
    by (simp add: detect_overlapping_edges_with_timing_def overlapping_of_def face_edge_pairs_def
          edge_key_of_def vertex_at_def make_EdgeKey_def EdgeKey_found_def EdgeKey_eq_def
          EdgeKey_hash_def llround_def std_hash_def fanV_def fanF_def Let_def)
  have scan: "scan_order fanF
      = [(0, 1), (1, 2), (2, 0), (1, 0), (0, 3), (3, 1), (0, 1), (1, 4), (4, 0)]"
    by (simp add: scan_order_def face_edge_pairs_def fanF_def)
  have box: "geometric_box fanV (0, 1) = geometric_box fanV (1, 0)"
    by (simp add: geometric_box_def fanV_def)
  from C8_overlapping_edges_first_of_bucket[OF v, of std_hash llround_overflow "1 / 10 ^ 5"]
  obtain edge_map where em:
    "collect_edge_map std_hash llround_overflow fanV fanF [] = Some edge_map"
    "detect_overlapping_edges_with_timing std_hash llround_overflow fanV fanF (1 / 10 ^ 5)
       = Some (image_mset (\<lambda>bucket. hd (snd bucket))
                 (filter_mset (\<lambda>bucket. length (snd bucket) > 2) (mset edge_map)))"
    "mset (concat (map snd edge_map)) = mset (scan_order fanF)"
    and same: "\<forall>e \<in> set (scan_order fanF). \<forall>e' \<in> set (scan_order fanF).
        geometric_box fanV e = geometric_box fanV e' \<longrightarrow>
        (\<exists>bucket \<in> set edge_map. e \<in> set (snd bucket) \<and> e' \<in> set (snd bucket))"
    by blast
  from same box have "\<exists>bucket \<in> set edge_map. (0, 1) \<in> set (snd bucket) \<and> (1, 0) \<in> set (snd bucket)"
    unfolding scan by simp
  then have "list_ex (\<lambda>bucket. (0, 1) \<in> set (snd bucket) \<and> (1, 0) \<in> set (snd bucket)) edge_map"
    by (simp add: list_ex_iff)
  with v run scan em show ?thesis by auto
qed

text \<open>A single triangle has three buckets of one incidence each and nothing is reported.\<close>

lemma single_triangle_not_reported:
  "detect_overlapping_edges_with_timing std_hash llround_overflow
     [(0, 0, 0), (1, 0, 0), (0, 1, 0)] [(0, 1, 2)] (1 / 10 ^ 5) = Some {#}"
  by (simp add: detect_overlapping_edges_with_timing_def overlapping_of_def face_edge_pairs_def
        edge_key_of_def vertex_at_def make_EdgeKey_def EdgeKey_found_def EdgeKey_eq_def
        EdgeKey_hash_def llround_def std_hash_def Let_def)

text \<open>The key is the box that an edge spans, not its pair of end points: the two diagonals of
  an axis-aligned rectangle have the same six key numbers and share a bucket. In \<open>rectF\<close> the
  diagonal of the vertices 0 and 2 lies on two triangles and the diagonal of 1 and 3 on one;
  the bucket holds \<open>(2, 0)\<close>, \<open>(0, 2)\<close> and \<open>(1, 3)\<close>, and \<open>(2, 0)\<close> is reported.\<close>

lemma rectangle_diagonals_same_key:
  "geometric_box rectV (0, 2) = geometric_box rectV (1, 3)
   \<and> edge_key_of rectV (0, 2) = edge_key_of rectV (1, 3)"
  by (simp add: geometric_box_def edge_key_of_def vertex_at_def make_EdgeKey_def rectV_def)

lemma rectangle_diagonals_share_bucket:
  "\<exists>edge_map. collect_edge_map std_hash llround_overflow rectV rectF [] = Some edge_map
     \<and> list_ex (\<lambda>bucket. snd bucket = [(2, 0), (0, 2), (1, 3)]) edge_map
     \<and> detect_overlapping_edges_with_timing std_hash llround_overflow rectV rectF (1 / 10 ^ 5)
         = Some {#(2, 0)#}"
  by (simp add: detect_overlapping_edges_with_timing_def overlapping_of_def face_edge_pairs_def
        edge_key_of_def vertex_at_def make_EdgeKey_def EdgeKey_found_def EdgeKey_eq_def
        EdgeKey_hash_def llround_def std_hash_def rectV_def rectF_def Let_def)

subsection \<open>The buckets with the identity as \<open>std::hash<long long>\<close>\<close>

lemma llround_quantized:
  assumes "representable v"
  shows "llround unspec (v * 10 ^ 5) = word_of_int (quantized v)"
proof -
  have c: "(0 \<le> v * 10 ^ 5) = (0 \<le> v)" by (simp add: zero_le_mult_iff)
  have "llround unspec (v * 10 ^ 5)
      = (if - (2 ^ 63) \<le> quantized v \<and> quantized v < 2 ^ 63
         then word_of_int (quantized v) else unspec (v * 10 ^ 5))"
    unfolding llround_def Let_def c quantized_def[symmetric] ..
  with assms show ?thesis unfolding representable_def by (simp only: if_True simp_thms)
qed

lemma quantized_cell: "quantized u = quantized v \<Longrightarrow> \<bar>u - v\<bar> < 1 / 10 ^ 5"
proof -
  assume q: "quantized u = quantized v"
  have "\<bar>u * 10 ^ 5 - v * 10 ^ 5\<bar> < 1"
    using q unfolding quantized_def by (auto split: if_splits) linarith+
  then show ?thesis by (simp add: field_simps abs_if split: if_splits)
qed

lemma quantized_near: "\<bar>u - v\<bar> < 1 / 10 ^ 5 \<Longrightarrow> \<bar>quantized u - quantized v\<bar> \<le> 1"
proof -
  assume "\<bar>u - v\<bar> < 1 / 10 ^ 5"
  then have "\<bar>u * 10 ^ 5 - v * 10 ^ 5\<bar> < 1" by (simp add: field_simps abs_if split: if_splits)
  then show ?thesis unfolding quantized_def by (auto split: if_splits) linarith+
qed

lemma near_same_parity:
  fixes a b :: int
  shows "\<bar>a - b\<bar> \<le> 1 \<Longrightarrow> odd a = odd b \<Longrightarrow> a = b"
  by presburger

lemma xor_peel:
  fixes a b R S :: "64 word"
  assumes "xor (push_bit n a) R = xor (push_bit n b) S"
    and "\<not> bit R n" and "\<not> bit S n" and "n < 64"
  shows "odd a = odd b"
proof -
  from assms(1) have "bit (xor (push_bit n a) R) n = bit (xor (push_bit n b) S) n" by simp
  with assms(2-4) show ?thesis by (simp add: bit_xor_iff bit_push_bit_iff bit_0)
qed

lemma xor_cancel:
  fixes x y z :: "64 word"
  shows "xor x y = xor x z \<Longrightarrow> y = z"
  by (metis bit.xor_left_self)

lemma odd_word_of_int: "odd (word_of_int a :: 64 word) = odd a"
  by (simp add: bit_word_of_int_iff bit_0 flip: bit_0)

text \<open>The combination of the six hash values does not merge distinct neighbours: when the six
  rounded numbers of two keys differ by at most one each, equal combinations mean equal
  numbers.\<close>

lemma hash_combination_inj:
  fixes a1 a2 a3 a4 a5 a6 b1 b2 b3 b4 b5 b6 :: int
  assumes near: "\<bar>a1 - b1\<bar> \<le> 1" "\<bar>a2 - b2\<bar> \<le> 1" "\<bar>a3 - b3\<bar> \<le> 1"
      "\<bar>a4 - b4\<bar> \<le> 1" "\<bar>a5 - b5\<bar> \<le> 1" "\<bar>a6 - b6\<bar> \<le> 1"
    and h: "xor (word_of_int a1 :: 64 word) (xor (push_bit 1 (word_of_int a2))
              (xor (push_bit 2 (word_of_int a3)) (xor (push_bit 3 (word_of_int a4))
              (xor (push_bit 4 (word_of_int a5)) (push_bit 5 (word_of_int a6))))))
          = xor (word_of_int b1) (xor (push_bit 1 (word_of_int b2))
              (xor (push_bit 2 (word_of_int b3)) (xor (push_bit 3 (word_of_int b4))
              (xor (push_bit 4 (word_of_int b5)) (push_bit 5 (word_of_int b6))))))"
  shows "a1 = b1 \<and> a2 = b2 \<and> a3 = b3 \<and> a4 = b4 \<and> a5 = b5 \<and> a6 = b6"
proof -
  from h have h0: "xor (push_bit 0 (word_of_int a1 :: 64 word)) (xor (push_bit 1 (word_of_int a2))
              (xor (push_bit 2 (word_of_int a3)) (xor (push_bit 3 (word_of_int a4))
              (xor (push_bit 4 (word_of_int a5)) (push_bit 5 (word_of_int a6))))))
          = xor (push_bit 0 (word_of_int b1)) (xor (push_bit 1 (word_of_int b2))
              (xor (push_bit 2 (word_of_int b3)) (xor (push_bit 3 (word_of_int b4))
              (xor (push_bit 4 (word_of_int b5)) (push_bit 5 (word_of_int b6))))))"
    by simp
  have "odd (word_of_int a1 :: 64 word) = odd (word_of_int b1 :: 64 word)"
    by (rule xor_peel[OF h0]) (simp_all add: bit_0 even_xor_iff even_push_bit_iff)
  with near(1) have e1: "a1 = b1" by (simp add: odd_word_of_int near_same_parity)
  from h have h1: "xor (push_bit 1 (word_of_int a2 :: 64 word))
              (xor (push_bit 2 (word_of_int a3)) (xor (push_bit 3 (word_of_int a4))
              (xor (push_bit 4 (word_of_int a5)) (push_bit 5 (word_of_int a6)))))
          = xor (push_bit 1 (word_of_int b2))
              (xor (push_bit 2 (word_of_int b3)) (xor (push_bit 3 (word_of_int b4))
              (xor (push_bit 4 (word_of_int b5)) (push_bit 5 (word_of_int b6)))))"
    unfolding e1 by (rule xor_cancel)
  have "odd (word_of_int a2 :: 64 word) = odd (word_of_int b2 :: 64 word)"
    by (rule xor_peel[OF h1]) (simp_all add: bit_xor_iff bit_push_bit_iff)
  with near(2) have e2: "a2 = b2" by (simp add: odd_word_of_int near_same_parity)
  from h1 have h2: "xor (push_bit 2 (word_of_int a3 :: 64 word)) (xor (push_bit 3 (word_of_int a4))
              (xor (push_bit 4 (word_of_int a5)) (push_bit 5 (word_of_int a6))))
          = xor (push_bit 2 (word_of_int b3)) (xor (push_bit 3 (word_of_int b4))
              (xor (push_bit 4 (word_of_int b5)) (push_bit 5 (word_of_int b6))))"
    unfolding e2 by (rule xor_cancel)
  have "odd (word_of_int a3 :: 64 word) = odd (word_of_int b3 :: 64 word)"
    by (rule xor_peel[OF h2]) (simp_all add: bit_xor_iff bit_push_bit_iff)
  with near(3) have e3: "a3 = b3" by (simp add: odd_word_of_int near_same_parity)
  from h2 have h3: "xor (push_bit 3 (word_of_int a4 :: 64 word))
              (xor (push_bit 4 (word_of_int a5)) (push_bit 5 (word_of_int a6)))
          = xor (push_bit 3 (word_of_int b4))
              (xor (push_bit 4 (word_of_int b5)) (push_bit 5 (word_of_int b6)))"
    unfolding e3 by (rule xor_cancel)
  have "odd (word_of_int a4 :: 64 word) = odd (word_of_int b4 :: 64 word)"
    by (rule xor_peel[OF h3]) (simp_all add: bit_xor_iff bit_push_bit_iff)
  with near(4) have e4: "a4 = b4" by (simp add: odd_word_of_int near_same_parity)
  from h3 have h4: "xor (push_bit 4 (word_of_int a5 :: 64 word)) (push_bit 5 (word_of_int a6))
          = xor (push_bit 4 (word_of_int b5)) (push_bit 5 (word_of_int b6))"
    unfolding e4 by (rule xor_cancel)
  have "odd (word_of_int a5 :: 64 word) = odd (word_of_int b5 :: 64 word)"
    by (rule xor_peel[OF h4]) (simp_all add: bit_xor_iff bit_push_bit_iff)
  with near(5) have e5: "a5 = b5" by (simp add: odd_word_of_int near_same_parity)
  from h4 have h5: "xor (push_bit 5 (word_of_int a6 :: 64 word)) 0
          = xor (push_bit 5 (word_of_int b6)) 0"
    unfolding e5 by (simp add: xor_cancel)
  have "odd (word_of_int a6 :: 64 word) = odd (word_of_int b6 :: 64 word)"
    by (rule xor_peel[OF h5]) simp_all
  with near(6) have e6: "a6 = b6" by (simp add: odd_word_of_int near_same_parity)
  from e1 e2 e3 e4 e5 e6 show ?thesis by simp
qed


lemma EdgeKey_hash_std_hash:
  assumes "list_all representable [x1 k, y1 k, z1 k, x2 k, y2 k, z2 k]"
  shows "EdgeKey_hash std_hash unspec k
     = xor (word_of_int (quantized (x1 k))) (xor (push_bit 1 (word_of_int (quantized (y1 k))))
         (xor (push_bit 2 (word_of_int (quantized (z1 k))))
         (xor (push_bit 3 (word_of_int (quantized (x2 k))))
         (xor (push_bit 4 (word_of_int (quantized (y2 k))))
              (push_bit 5 (word_of_int (quantized (z2 k))))))))"
proof -
  from assms have "representable (x1 k)" "representable (y1 k)" "representable (z1 k)"
    "representable (x2 k)" "representable (y2 k)" "representable (z2 k)" by simp_all
  then show ?thesis
    unfolding EdgeKey_hash_def Let_def std_hash_def by (simp only: llround_quantized)
qed

text \<open>With the identity as \<open>std::hash<long long>\<close> and coordinates that \<open>std::llround\<close> can
  represent, a stored key is found exactly for the keys with the same six quantized numbers:
  the probe is an equivalence relation and at most one stored key qualifies.\<close>

lemma EdgeKey_found_std_hash:
  assumes "list_all representable [x1 k, y1 k, z1 k, x2 k, y2 k, z2 k]"
    and "list_all representable [x1 k', y1 k', z1 k', x2 k', y2 k', z2 k']"
  shows "EdgeKey_found std_hash unspec k k'
     = (map quantized [x1 k, y1 k, z1 k, x2 k, y2 k, z2 k]
        = map quantized [x1 k', y1 k', z1 k', x2 k', y2 k', z2 k'])"
proof
  assume f: "EdgeKey_found std_hash unspec k k'"
  then have eq: "EdgeKey_eq k k'" by (simp add: EdgeKey_found_def)
  from f have "EdgeKey_hash std_hash unspec k = EdgeKey_hash std_hash unspec k'"
    by (simp add: EdgeKey_found_def)
  then have h: "xor (word_of_int (quantized (x1 k)) :: 64 word)
         (xor (push_bit 1 (word_of_int (quantized (y1 k))))
         (xor (push_bit 2 (word_of_int (quantized (z1 k))))
         (xor (push_bit 3 (word_of_int (quantized (x2 k))))
         (xor (push_bit 4 (word_of_int (quantized (y2 k))))
              (push_bit 5 (word_of_int (quantized (z2 k))))))))
     = xor (word_of_int (quantized (x1 k'))) (xor (push_bit 1 (word_of_int (quantized (y1 k'))))
         (xor (push_bit 2 (word_of_int (quantized (z1 k'))))
         (xor (push_bit 3 (word_of_int (quantized (x2 k'))))
         (xor (push_bit 4 (word_of_int (quantized (y2 k'))))
              (push_bit 5 (word_of_int (quantized (z2 k'))))))))"
    unfolding EdgeKey_hash_std_hash[OF assms(1)] EdgeKey_hash_std_hash[OF assms(2)] .
  from eq have "\<bar>quantized (x1 k) - quantized (x1 k')\<bar> \<le> 1"
    "\<bar>quantized (y1 k) - quantized (y1 k')\<bar> \<le> 1" "\<bar>quantized (z1 k) - quantized (z1 k')\<bar> \<le> 1"
    "\<bar>quantized (x2 k) - quantized (x2 k')\<bar> \<le> 1" "\<bar>quantized (y2 k) - quantized (y2 k')\<bar> \<le> 1"
    "\<bar>quantized (z2 k) - quantized (z2 k')\<bar> \<le> 1"
    by (simp_all add: EdgeKey_eq_def quantized_near)
  from hash_combination_inj[OF this h]
  show "map quantized [x1 k, y1 k, z1 k, x2 k, y2 k, z2 k]
        = map quantized [x1 k', y1 k', z1 k', x2 k', y2 k', z2 k']" by simp
next
  assume "map quantized [x1 k, y1 k, z1 k, x2 k, y2 k, z2 k]
        = map quantized [x1 k', y1 k', z1 k', x2 k', y2 k', z2 k']"
  then have q: "quantized (x1 k) = quantized (x1 k')" "quantized (y1 k) = quantized (y1 k')"
    "quantized (z1 k) = quantized (z1 k')" "quantized (x2 k) = quantized (x2 k')"
    "quantized (y2 k) = quantized (y2 k')" "quantized (z2 k) = quantized (z2 k')" by simp_all
  from quantized_cell[OF q(1)] quantized_cell[OF q(2)] quantized_cell[OF q(3)]
    quantized_cell[OF q(4)] quantized_cell[OF q(5)] quantized_cell[OF q(6)]
  have "EdgeKey_eq k k'" unfolding EdgeKey_eq_def by blast
  moreover have "EdgeKey_hash std_hash unspec k = EdgeKey_hash std_hash unspec k'"
    unfolding EdgeKey_hash_std_hash[OF assms(1)] EdgeKey_hash_std_hash[OF assms(2)] q ..
  ultimately show "EdgeKey_found std_hash unspec k k'" by (simp add: EdgeKey_found_def)
qed

lemma edge_key_representable:
  assumes "list_all representable_row V" and "edge_key_of V e = Some k"
  shows "list_all representable [x1 k, y1 k, z1 k, x2 k, y2 k, z2 k]"
proof -
  obtain a b where e: "e = (a, b)" by (cases e)
  from assms(2) e have a: "0 \<le> a" "a < int (length V)" and b: "0 \<le> b" "b < int (length V)"
    by (auto simp: edge_key_of_def vertex_at_def split: if_splits)
  obtain ax ay az where pa: "V ! nat a = (ax, ay, az)" by (cases "V ! nat a")
  obtain bx "by" bz where pb: "V ! nat b = (bx, by, bz)" by (cases "V ! nat b")
  from a have "V ! nat a \<in> set V" by simp
  with assms(1) pa have ra: "representable ax" "representable ay" "representable az"
    by (auto simp: list_all_iff representable_row_def)
  from b have "V ! nat b \<in> set V" by simp
  with assms(1) pb have rb: "representable bx" "representable by" "representable bz"
    by (auto simp: list_all_iff representable_row_def)
  from assms(2) e a b pa pb have "k = make_EdgeKey ax ay az bx by bz"
    by (simp add: edge_key_of_def vertex_at_def)
  with ra rb show ?thesis by (simp add: make_EdgeKey_def min_def max_def)
qed

text \<open>Hence, on that platform, the buckets are the classes of incidences with the same
  quantized key: two scanned incidences share a bucket exactly when the six key numbers of
  the one quantize to those of the other.\<close>

theorem std_hash_buckets_are_quantized_keys:
  assumes rep: "list_all representable_row V"
    and m: "collect_edge_map std_hash unspec V F [] = Some edge_map"
    and e: "e \<in> set (scan_order F)" and e': "e' \<in> set (scan_order F)"
  shows "(\<exists>bucket \<in> set edge_map. e \<in> set (snd bucket) \<and> e' \<in> set (snd bucket))
     = (map quantized (geometric_box V e) = map quantized (geometric_box V e'))"
proof -
  let ?found = "EdgeKey_found std_hash unspec"
  let ?key = "edge_key_of V"
  have "edge_map_inv [] []" by (simp add: edge_map_inv_def)
  from collect_edge_map_inv[OF m this] have "mset (concat (map snd edge_map)) = mset (scan_order F)"
    by (simp add: edge_map_inv_def)
  from mset_eq_setD[OF this]
  have scan: "set (scan_order F) = (\<Union>b \<in> set edge_map. set (snd b))" by simp
  have "first_match_inv ?found ?key []" by simp
  from collect_edge_map_first_match[OF m this] have fm: "first_match_inv ?found ?key edge_map" .
  have member: "\<exists>ke. ?key u = Some ke \<and> ?found (fst b) ke \<and> ?key (hd (snd b)) = Some (fst b)"
    if "b \<in> set edge_map" "u \<in> set (snd b)" for b u
    using first_match_inv_bucket[OF fm that(1)] that(2)
    by (auto simp: list_all_iff)
  have quant: "map quantized (geometric_box V (hd (snd b))) = map quantized (geometric_box V u)"
    if "b \<in> set edge_map" "u \<in> set (snd b)" for b u
  proof -
    from member[OF that] obtain ke where ke: "?key u = Some ke" and f: "?found (fst b) ke"
      and hd: "?key (hd (snd b)) = Some (fst b)" by blast
    from f show ?thesis
      unfolding EdgeKey_found_std_hash[OF edge_key_representable[OF rep hd]
          edge_key_representable[OF rep ke]] edge_key_of_box[OF hd] edge_key_of_box[OF ke] .
  qed
  have accepts: "map_option (?found (fst b)) (?key u) = Some True"
    if "b \<in> set edge_map" "w \<in> set (snd b)" "b' \<in> set edge_map" "u \<in> set (snd b')"
      "map quantized (geometric_box V w) = map quantized (geometric_box V u)" for b b' w u
  proof -
    from member[OF that(1,2)] obtain hd: "?key (hd (snd b)) = Some (fst b)" by blast
    from member[OF that(3,4)] obtain ke where ke: "?key u = Some ke" by blast
    from quant[OF that(1,2)] that(5)
    have "map quantized (geometric_box V (hd (snd b))) = map quantized (geometric_box V u)"
      by simp
    then have "?found (fst b) ke"
      unfolding EdgeKey_found_std_hash[OF edge_key_representable[OF rep hd]
          edge_key_representable[OF rep ke]] edge_key_of_box[OF hd] edge_key_of_box[OF ke] .
    with ke show ?thesis by simp
  qed
  show ?thesis
  proof
    assume "\<exists>bucket \<in> set edge_map. e \<in> set (snd bucket) \<and> e' \<in> set (snd bucket)"
    then obtain b where "b \<in> set edge_map" "e \<in> set (snd b)" "e' \<in> set (snd b)" by blast
    from quant[OF this(1,2)] quant[OF this(1,3)]
    show "map quantized (geometric_box V e) = map quantized (geometric_box V e')" by simp
  next
    assume q: "map quantized (geometric_box V e) = map quantized (geometric_box V e')"
    from e e' scan obtain b b' where b: "b \<in> set edge_map" "e \<in> set (snd b)"
      and b': "b' \<in> set edge_map" "e' \<in> set (snd b')" by auto
    from first_match_inv_cross[OF fm b b' accepts[OF b b' q] accepts[OF b' b q[symmetric]]] b
    show "\<exists>bucket \<in> set edge_map. e \<in> set (snd bucket) \<and> e' \<in> set (snd bucket)" by blast
  qed
qed

text \<open>In \<open>fanF\<close> the incidences \<open>(0, 1)\<close> and \<open>(1, 0)\<close> share a bucket and \<open>(0, 1)\<close> and
  \<open>(1, 2)\<close> do not.\<close>

lemma fan_buckets:
  "\<exists>edge_map. collect_edge_map std_hash llround_overflow fanV fanF [] = Some edge_map
     \<and> list_ex (\<lambda>bucket. (0, 1) \<in> set (snd bucket) \<and> (1, 0) \<in> set (snd bucket)) edge_map
     \<and> list_all (\<lambda>bucket. \<not> ((0, 1) \<in> set (snd bucket) \<and> (1, 2) \<in> set (snd bucket))) edge_map"
proof -
  have rep: "list_all representable_row fanV"
    by (simp add: fanV_def representable_row_def representable_def quantized_def)
  have "list_all (valid_face fanV) fanF" by (simp add: valid_face_def fanV_def fanF_def)
  from collect_edge_map_total[OF this] obtain m where
    m: "collect_edge_map std_hash llround_overflow fanV fanF [] = Some m" by blast
  have scan: "(0, 1) \<in> set (scan_order fanF)" "(1, 0) \<in> set (scan_order fanF)"
    "(1, 2) \<in> set (scan_order fanF)"
    by (simp_all add: scan_order_def face_edge_pairs_def fanF_def)
  have "map quantized (geometric_box fanV (0, 1)) = map quantized (geometric_box fanV (1, 0))"
    by (simp add: geometric_box_def fanV_def)
  with std_hash_buckets_are_quantized_keys[OF rep m scan(1,2)]
  have 1: "list_ex (\<lambda>bucket. (0, 1) \<in> set (snd bucket) \<and> (1, 0) \<in> set (snd bucket)) m"
    by (simp add: list_ex_iff)
  have "map quantized (geometric_box fanV (0, 1)) \<noteq> map quantized (geometric_box fanV (1, 2))"
    by (simp add: geometric_box_def fanV_def quantized_def)
  with std_hash_buckets_are_quantized_keys[OF rep m scan(1,3)]
  have 2: "list_all (\<lambda>bucket. \<not> ((0, 1) \<in> set (snd bucket) \<and> (1, 2) \<in> set (snd bucket))) m"
    by (simp add: list_all_iff)
  from m 1 2 show ?thesis by blast
qed

text \<open>The tolerance of \<open>operator==\<close> does not by itself merge two edges: duplicates of the
  vertices 0 and 1 displaced by \<open>6e-6\<close> along \<open>x\<close> quantize differently and get a bucket of
  their own, so the third triangle on the edge goes unreported; displaced by \<open>4e-6\<close> they
  quantize alike and the edge is reported.\<close>

lemma displaced_duplicate_split_by_hash:
  "detect_overlapping_edges_with_timing std_hash llround_overflow
     [(0, 0, 0), (1, 0, 0), (0, 1, 0), (0, -1, 0), (0, 0, 1), (6 / 10 ^ 6, 0, 0), (1 + 6 / 10 ^ 6, 0, 0)]
     [(0, 1, 2), (1, 0, 3), (5, 6, 4)] (1 / 10 ^ 5) = Some {#}
   \<and> detect_overlapping_edges_with_timing std_hash llround_overflow
     [(0, 0, 0), (1, 0, 0), (0, 1, 0), (0, -1, 0), (0, 0, 1), (4 / 10 ^ 6, 0, 0), (1 + 4 / 10 ^ 6, 0, 0)]
     [(0, 1, 2), (1, 0, 3), (5, 6, 4)] (1 / 10 ^ 5) = Some {#(0, 1)#}"
  by (simp add: detect_overlapping_edges_with_timing_def overlapping_of_def face_edge_pairs_def
        edge_key_of_def vertex_at_def make_EdgeKey_def EdgeKey_found_def EdgeKey_eq_def
        EdgeKey_hash_def llround_def std_hash_def Let_def)

lemma llround_examples:
  "llround unspec (1 / 2) = 1 \<and> llround unspec (- (3 / 2)) = - 2 \<and> llround unspec (12 / 5) = 2
   \<and> llround unspec (- (13 / 5)) = - 3 \<and> llround unspec (10 ^ 20) = unspec (10 ^ 20)"
  by (simp add: llround_def Let_def)

text \<open>\<open>llround_overflow\<close> is what \<open>std::llround\<close> returns out of range on x86-64, the
  smallest \<open>long long\<close>. The shift by three bits drops it: the key of an edge from the origin
  to \<open>(1e20, 0, 0)\<close> hashes to 0.\<close>

lemma out_of_range_key_hash:
  "EdgeKey_hash std_hash llround_overflow (make_EdgeKey 0 0 0 (10 ^ 20) 0 0) = 0"
  by (simp add: EdgeKey_hash_def make_EdgeKey_def llround_def std_hash_def llround_overflow_def
        Let_def)
section \<open>Results about the full pierced-face detection\<close>

lemma state_inv_empty: "state_inv R empty_state"
  by (simp add: state_inv_def empty_state_def map_entry_def)

lemma map_entry_upd: "map_entry (m(k \<mapsto> s)) k' = (if k' = k then s else map_entry m k')"
  by (simp add: map_entry_def)

lemma record_intersection_map:
  "map_entry (intersection_map (record_intersection f g st)) k =
     (if k = f \<and> k = g then insert f (map_entry (intersection_map st) k)
      else if k = f then insert g (map_entry (intersection_map st) k)
      else if k = g then insert f (map_entry (intersection_map st) k)
      else map_entry (intersection_map st) k)"
  by (auto simp: record_intersection_def Let_def map_entry_def split: option.splits)

lemma record_intersection_dom:
  "dom (intersection_map (record_intersection f g st)) = insert g (insert f (dom (intersection_map st)))"
  by (auto simp: record_intersection_def Let_def split: if_splits)

lemma record_intersection_faces:
  "intersecting_faces (record_intersection f g st) = insert g (insert f (intersecting_faces st))"
  by (simp add: record_intersection_def Let_def)

lemma state_inv_record:
  assumes "state_inv R st" and "R f g"
  shows "state_inv R (record_intersection f g st)"
  using assms unfolding state_inv_def record_intersection_map record_intersection_dom
    record_intersection_faces
  by (auto split: if_splits)

lemma hit_intro:
  "vec_at tris f = Some t1 \<Longrightarrow> vec_at bbs f = Some b1 \<Longrightarrow> vec_at tris g = Some t2 \<Longrightarrow>
   vec_at bbs g = Some b2 \<Longrightarrow> intersects b1 b2 \<Longrightarrow> \<not> share_vertex t1 t2 \<Longrightarrow>
   check_triangle_intersection t1 t2 \<Longrightarrow> hit tris bbs f g"
  by (simp add: hit_def pair_test_def)

lemma vec_at_Some: "0 \<le> i \<Longrightarrow> i < int (length xs) \<Longrightarrow> vec_at xs i = Some (xs ! nat i)"
  by (simp add: vec_at_def)

lemma leaf_loop_ok:
  assumes t1: "vec_at tris face_idx = Some tri1" and b1: "vec_at bbs face_idx = Some bbox1"
    and len: "length bbs = length tris"
  shows "\<forall>i \<in> set idxs. 0 \<le> i \<and> i < int (length tris) \<Longrightarrow> state_inv (hit tris bbs) st \<Longrightarrow>
     \<exists>st'. leaf_loop tris bbs face_idx tri1 bbox1 idxs st = Some st' \<and> state_inv (hit tris bbs) st'"
proof (induction idxs arbitrary: st)
  case Nil
  then show ?case by simp
next
  case (Cons other idxs)
  from Cons.prems(1) have o: "0 \<le> other" "other < int (length tris)"
    and rest: "\<forall>i \<in> set idxs. 0 \<le> i \<and> i < int (length tris)" by simp_all
  from o len have b2: "vec_at bbs other = Some (bbs ! nat other)"
    and t2: "vec_at tris other = Some (tris ! nat other)" by (simp_all add: vec_at_Some)
  show ?case
  proof (cases "other \<noteq> face_idx \<and> intersects bbox1 (bbs ! nat other) \<and>
                \<not> share_vertex tri1 (tris ! nat other) \<and>
                check_triangle_intersection tri1 (tris ! nat other)")
    case True
    then have h: "hit tris bbs face_idx other"
      using hit_intro[OF t1 b1 t2 b2] by blast
    have "state_inv (hit tris bbs) (record_intersection face_idx other st)"
      using state_inv_record[OF Cons.prems(2) h] .
    from Cons.IH[OF rest this] True show ?thesis by (simp add: b2 t2)
  next
    case False
    from Cons.IH[OF rest Cons.prems(2)] False show ?thesis by (auto simp: b2 t2)
  qed
qed

lemma query_ok:
  fixes tris :: "Triangle list" and bbs :: "AABB list"
  shows "length bbs = length tris \<Longrightarrow>
         tree_indices node \<subseteq> {i. 0 \<le> i \<and> i < int (length tris)} \<Longrightarrow>
         0 \<le> face_idx \<Longrightarrow> face_idx < int (length tris) \<Longrightarrow> state_inv (hit tris bbs) st \<Longrightarrow>
         \<exists>st'. query_octree tris bbs node face_idx st = Some st' \<and> state_inv (hit tris bbs) st'"
    and "length bbs = length tris \<Longrightarrow>
         (\<forall>n. Some n \<in> set chs \<longrightarrow> tree_indices n \<subseteq> {i. 0 \<le> i \<and> i < int (length tris)}) \<Longrightarrow>
         0 \<le> face_idx \<Longrightarrow> face_idx < int (length tris) \<Longrightarrow> state_inv (hit tris bbs) st \<Longrightarrow>
         \<exists>st'. query_children tris bbs center half_size face_bbox i chs face_idx st = Some st'
               \<and> state_inv (hit tris bbs) st'"
proof (induction tris bbs node face_idx st and tris bbs center half_size face_bbox i chs face_idx st
       rule: query_octree_query_children.induct)
  case (1 triangles face_bboxes center sz depth idxs chs face_idx st)
  note len = "1.prems"(1)
  from "1.prems"(3,4) len have t: "vec_at triangles face_idx = Some (triangles ! nat face_idx)"
    and b: "vec_at face_bboxes face_idx = Some (face_bboxes ! nat face_idx)"
    by (simp_all add: vec_at_Some)
  show ?case
  proof (cases "list_all (\<lambda>child. child = None) chs")
    case True
    from "1.prems"(2) have "\<forall>i \<in> set idxs. 0 \<le> i \<and> i < int (length triangles)" by auto
    from leaf_loop_ok[OF t b len this "1.prems"(5)] True show ?thesis by (simp add: t b)
  next
    case False
    have "\<forall>n. Some n \<in> set chs \<longrightarrow> tree_indices n \<subseteq> {i. 0 \<le> i \<and> i < int (length triangles)}"
    proof (intro allI impI)
      fix n assume "Some n \<in> set chs"
      then have "tree_indices n \<subseteq> tree_indices (OctreeNode center sz depth idxs chs)"
        by (auto intro!: bexI[of _ "Some n"])
      with "1.prems"(2) show "tree_indices n \<subseteq> {i. 0 \<le> i \<and> i < int (length triangles)}" by blast
    qed
    from "1.IH"[OF False b len this "1.prems"(3,4,5)] False show ?thesis by (simp add: b)
  qed
next
  case (2 triangles face_bboxes center half_size face_bbox i face_idx st)
  then show ?case by simp
next
  case (3 triangles face_bboxes center half_size face_bbox i rest face_idx st)
  then show ?case by simp
next
  case (4 triangles face_bboxes center half_size face_bbox i child rest face_idx st)
  note len = "4.prems"(1)
  have c: "tree_indices child \<subseteq> {i. 0 \<le> i \<and> i < int (length triangles)}"
    using "4.prems"(2) by simp
  have r: "\<forall>n. Some n \<in> set rest \<longrightarrow> tree_indices n \<subseteq> {i. 0 \<le> i \<and> i < int (length triangles)}"
    using "4.prems"(2) by simp
  show ?case
  proof (cases "intersects face_bbox (child_bbox center half_size i)")
    case True
    from "4.IH"(1)[OF True len c "4.prems"(3,4,5)] obtain st1 where
      st1: "query_octree triangles face_bboxes child face_idx st = Some st1"
           "state_inv (hit triangles face_bboxes) st1" by blast
    from "4.IH"(2)[OF True st1(1) len r "4.prems"(3,4) st1(2)] True st1(1)
    show ?thesis by simp
  next
    case False
    from "4.IH"(3)[OF False len r "4.prems"(3,4,5)] False show ?thesis by simp
  qed
qed

lemma build_octree_indices:
  "tree_indices (build_octree tris idxs center sz depth max_depth min_faces) \<subseteq> set idxs"
proof (induction tris idxs center sz depth max_depth min_faces rule: build_octree.induct)
  case (1 triangles face_idxs center sz depth max_depth min_faces)
  show ?case
  proof (cases "depth \<ge> max_depth \<or> int (length face_idxs) \<le> min_faces")
    case True
    then show ?thesis by (subst build_octree.simps) auto
  next
    case False
    let ?cf = "\<lambda>i. filter (\<lambda>face_idx. get_octant center (tri_center (triangles ! nat face_idx)) = i)
                              face_idxs"
    have sub: "\<And>i. i \<in> set octants \<Longrightarrow> ?cf i \<noteq> [] \<Longrightarrow>
       tree_indices (build_octree triangles (?cf i) (child_center_of center (sz / 2) i) (sz / 2)
                       (depth + 1) max_depth min_faces) \<subseteq> set face_idxs"
    proof -
      fix i assume i: "i \<in> set octants" and ne: "?cf i \<noteq> []"
      from "1.IH"[OF False refl i refl ne]
      have "tree_indices (build_octree triangles (?cf i) (child_center_of center (sz / 2) i) (sz / 2)
                       (depth + 1) max_depth min_faces) \<subseteq> set (?cf i)" .
      then show "tree_indices (build_octree triangles (?cf i) (child_center_of center (sz / 2) i) (sz / 2)
                       (depth + 1) max_depth min_faces) \<subseteq> set face_idxs" by auto
    qed
    show ?thesis
      using False sub
      by (subst build_octree.simps) (auto simp: Let_def split: if_splits)
  qed
qed

lemma all_indices_range: "i \<in> set (all_indices n) \<longleftrightarrow> 0 \<le> i \<and> i < int n"
  by (auto simp: all_indices_def image_iff intro: bexI[of _ "nat i"])

lemma build_root_indices:
  "tree_indices (build_root tris) \<subseteq> {i. 0 \<le> i \<and> i < int (length tris)}"
proof -
  have "tree_indices (build_root tris) \<subseteq> set (all_indices (length tris))"
    by (simp add: build_root_def Let_def build_octree_indices split: prod.splits)
  then show ?thesis by (auto simp: all_indices_range)
qed

lemma query_all_ok:
  assumes "length bbs = length tris"
    and "tree_indices octree \<subseteq> {i. 0 \<le> i \<and> i < int (length tris)}"
  shows "\<forall>i \<in> set idxs. 0 \<le> i \<and> i < int (length tris) \<Longrightarrow> state_inv (hit tris bbs) st \<Longrightarrow>
         \<exists>st'. query_all tris bbs octree idxs st = Some st' \<and> state_inv (hit tris bbs) st'"
proof (induction idxs arbitrary: st)
  case Nil
  then show ?case by simp
next
  case (Cons f idxs)
  from Cons.prems(1) have f: "0 \<le> f" "f < int (length tris)"
    and rest: "\<forall>i \<in> set idxs. 0 \<le> i \<and> i < int (length tris)" by simp_all
  from query_ok(1)[OF assms f Cons.prems(2)] obtain st1 where
    st1: "query_octree tris bbs octree f st = Some st1" "state_inv (hit tris bbs) st1" by blast
  from Cons.IH[OF rest st1(2)] st1(1) show ?case by simp
qed

lemma read_triangle_valid:
  "valid_face V f \<Longrightarrow> read_triangle V f = Some (face_triangle V f)"
  by (auto simp: valid_face_def read_triangle_def face_triangle_def vertex_at_def split: prod.splits)

lemma read_triangles_valid:
  "list_all (valid_face V) F \<Longrightarrow> read_triangles V F = Some (map (face_triangle V) F)"
  by (induction F) (simp_all add: read_triangle_valid)

lemma detect_state_ok:
  assumes "valid_mesh V F"
  defines "tris \<equiv> map (face_triangle V) F"
  defines "bbs \<equiv> map compute_triangle_aabb tris"
  shows "\<exists>st. query_all tris bbs (build_root tris) (all_indices (length F)) empty_state = Some st
           \<and> state_inv (hit tris bbs) st
           \<and> detect_pierced_faces_with_timing F V = Some (to_result st)"
proof -
  have len: "length bbs = length tris" and lenF: "length tris = length F"
    by (simp_all add: bbs_def tris_def)
  have idx: "\<forall>i \<in> set (all_indices (length F)). 0 \<le> i \<and> i < int (length tris)"
    by (simp add: all_indices_range lenF)
  from query_all_ok[OF len build_root_indices idx state_inv_empty]
  obtain st where st: "query_all tris bbs (build_root tris) (all_indices (length F)) empty_state = Some st"
    "state_inv (hit tris bbs) st" by blast
  have "read_triangles V F = Some tris"
    using assms(1) by (simp add: read_triangles_valid valid_mesh_def tris_def)
  with st show ?thesis
    by (simp add: detect_pierced_faces_with_timing_def Let_def bbs_def)
qed

lemma to_result_faces:
  "state_inv R st \<Longrightarrow> set (fst (to_result st)) = intersecting_faces st"
  by (simp add: to_result_def state_inv_def)

lemma to_result_dom: "dom (snd (to_result st)) = dom (intersection_map st)"
  by (auto simp: to_result_def split: option.splits)

lemma to_result_entries:
  "state_inv R st \<Longrightarrow> set (entries (snd (to_result st)) k) = map_entry (intersection_map st) k"
proof -
  assume inv: "state_inv R st"
  then have "finite (map_entry (intersection_map st) k)" by (simp add: state_inv_def)
  then show ?thesis
    by (auto simp: to_result_def entries_def map_entry_def split: option.splits)
qed

lemma vertex_dist_sym: "vertex_dist a b = vertex_dist b a"
proof -
  have "\<And>u v::real. (u - v) * (u - v) = (v - u) * (v - u)" by (simp add: algebra_simps)
  then show ?thesis unfolding vertex_dist_def by presburger
qed

lemma share_vertex_sym: "share_vertex t1 t2 = share_vertex t2 t1"
  by (auto simp: share_vertex_def vertices_def vertex_dist_sym[of "tv0 t1"]
        vertex_dist_sym[of "tv1 t1"] vertex_dist_sym[of "tv2 t1"])

lemma hit_not_share:
  "hit tris bbs f g \<Longrightarrow> \<not> share_vertex (tris ! nat f) (tris ! nat g)"
  by (auto simp: hit_def pair_test_def vec_at_def split: option.splits if_splits)

text \<open>
  C2. For every mesh with valid face indices \<open>detect_pierced_faces\<close> returns, the returned
  map is symmetric (\<open>g\<close> is in \<open>map[f]\<close> iff \<open>f\<close> is in \<open>map[g]\<close>), and the returned list of
  intersecting faces holds exactly the keys of the map.
\<close>

theorem C2_intersection_map_symmetric:
  assumes "valid_mesh V F"
  shows "\<exists>faces rmap. detect_pierced_faces_with_timing F V = Some (faces, rmap)
           \<and> (\<forall>f g. g \<in> set (entries rmap f) \<longleftrightarrow> f \<in> set (entries rmap g))
           \<and> set faces = dom rmap"
proof -
  let ?tris = "map (face_triangle V) F"
  let ?bbs = "map compute_triangle_aabb ?tris"
  from detect_state_ok[OF assms] obtain st where
    inv: "state_inv (hit ?tris ?bbs) st"
    and res: "detect_pierced_faces_with_timing F V = Some (to_result st)" by blast
  have sym: "\<forall>f g. g \<in> set (entries (snd (to_result st)) f) \<longleftrightarrow> f \<in> set (entries (snd (to_result st)) g)"
    using inv unfolding to_result_entries[OF inv] state_inv_def by blast
  have keys: "set (fst (to_result st)) = dom (snd (to_result st))"
    using inv unfolding to_result_faces[OF inv] to_result_dom state_inv_def by simp
  from res sym keys show ?thesis
    by (cases "to_result st") auto
qed

text \<open>
  C3. For every mesh with valid face indices and every two faces \<open>f\<close>, \<open>g\<close> such that some
  vertex of \<open>T(f)\<close> is at Euclidean distance below \<open>1e-10\<close> from some vertex of \<open>T(g)\<close>, the
  pair is not reported by \<open>detect_pierced_faces\<close>, whether or not the triangles intersect:
  \<open>g\<close> is not in \<open>map[f]\<close> nor \<open>f\<close> in \<open>map[g]\<close>; and a face is in the returned list only
  with a non-empty map entry, so the pair adds nothing to the list either.
\<close>

theorem C3_shared_vertex_pair_not_reported:
  assumes "valid_mesh V F" and "f < length F" and "g < length F"
    and "share_vertex (face_triangle V (F ! f)) (face_triangle V (F ! g))"
  shows "\<exists>faces rmap. detect_pierced_faces_with_timing F V = Some (faces, rmap)
           \<and> int g \<notin> set (entries rmap (int f))
           \<and> int f \<notin> set (entries rmap (int g))
           \<and> (\<forall>a \<in> set faces. entries rmap a \<noteq> [])"
proof -
  let ?tris = "map (face_triangle V) F"
  let ?bbs = "map compute_triangle_aabb ?tris"
  from detect_state_ok[OF assms(1)] obtain st where
    inv: "state_inv (hit ?tris ?bbs) st"
    and res: "detect_pierced_faces_with_timing F V = Some (to_result st)" by blast
  have sh: "share_vertex (?tris ! nat (int f)) (?tris ! nat (int g))"
    using assms(2,3,4) by simp
  have ng: "int g \<notin> map_entry (intersection_map st) (int f)"
  proof
    assume "int g \<in> map_entry (intersection_map st) (int f)"
    with inv have "hit ?tris ?bbs (int f) (int g) \<or> hit ?tris ?bbs (int g) (int f)"
      unfolding state_inv_def by blast
    then show False
      using hit_not_share[of ?tris ?bbs "int f" "int g"] hit_not_share[of ?tris ?bbs "int g" "int f"]
        sh share_vertex_sym[of "?tris ! nat (int f)"] by blast
  qed
  have nf: "int f \<notin> map_entry (intersection_map st) (int g)"
    using ng inv unfolding state_inv_def by blast
  have ne: "\<forall>a \<in> set (fst (to_result st)). entries (snd (to_result st)) a \<noteq> []"
  proof
    fix a assume "a \<in> set (fst (to_result st))"
    then have "a \<in> dom (intersection_map st)"
      using inv unfolding to_result_faces[OF inv] state_inv_def by simp
    then have "map_entry (intersection_map st) a \<noteq> {}"
      using inv unfolding state_inv_def by blast
    then have "set (entries (snd (to_result st)) a) \<noteq> {}"
      unfolding to_result_entries[OF inv] .
    then show "entries (snd (to_result st)) a \<noteq> []" by auto
  qed
  from res ng nf ne show ?thesis
    unfolding to_result_entries[OF inv, symmetric]
    by (cases "to_result st") auto
qed

section \<open>The detection on the example meshes\<close>

lemma EPSILON_pos: "0 < EPSILON" by (simp add: EPSILON_def)

lemma vertex_dist_less_EPSILON:
  "vertex_dist a b < EPSILON \<longleftrightarrow>
     (vx a - vx b) * (vx a - vx b) + (vy a - vy b) * (vy a - vy b) + (vz a - vz b) * (vz a - vz b)
       < 1 / 10 ^ 20"
proof -
  have e: "sqrt (EPSILON * EPSILON) = EPSILON" using EPSILON_pos by simp
  have "vertex_dist a b < sqrt (EPSILON * EPSILON) \<longleftrightarrow>
     (vx a - vx b) * (vx a - vx b) + (vy a - vy b) * (vy a - vy b) + (vz a - vz b) * (vz a - vz b)
       < EPSILON * EPSILON"
    unfolding vertex_dist_def by (rule real_sqrt_less_iff)
  then show ?thesis unfolding e by (simp add: EPSILON_def)
qed

lemma cross_read: "read_triangles crossV crossF = Some [crossA, crossB]"
  by (simp add: crossV_def crossF_def crossA_def crossB_def read_triangle_def vertex_at_def to_vec_def)

lemma cross_share: "\<not> share_vertex crossA crossB" "\<not> share_vertex crossB crossA"
  unfolding share_vertex_def vertices_def list_ex_Cons_iff list_ex_Nil_iff vertex_dist_less_EPSILON
  by (simp_all add: crossA_def crossB_def)

lemma cross_sat: "check_triangle_intersection crossA crossB" "check_triangle_intersection crossB crossA"
  unfolding check_triangle_intersection_iff norm3d_less_ALMOST_ZERO
  by (simp_all add: crossA_def crossB_def raw_normal_def get_edges_def cross_def vec_sub_def
        isZero_def ALMOST_ZERO_def intervals_apart_def project_triangle_def dot_def Let_def)

lemma cross_root: "build_root [crossA, crossB] =
   OctreeNode (Vector3d (3/2) (3/2) 0) (303/100) 0 [0, 1] (replicate 8 None)"
  by (simp add: build_root_def mesh_bounds_def vertices_def extend_bounds_def crossA_def crossB_def
       DBL_MAX_def all_indices_def build_octree.simps Let_def)

lemma cross_boxes: "intersects (compute_triangle_aabb crossA) (compute_triangle_aabb crossB)"
  "intersects (compute_triangle_aabb crossB) (compute_triangle_aabb crossA)"
  by (simp_all add: intersects_def compute_triangle_aabb_def crossA_def crossB_def)

lemma all_null_replicate: "list_all (\<lambda>child. child = None) (replicate n None)"
  by (induction n) simp_all

lemma cross_state:
  "query_all [crossA, crossB] [compute_triangle_aabb crossA, compute_triangle_aabb crossB]
     (build_root [crossA, crossB]) [0, 1] empty_state
   = Some \<lparr> intersecting_faces = {0, 1}, intersection_map = [0 \<mapsto> {1}, 1 \<mapsto> {0}] \<rparr>"
  unfolding cross_root
  by (simp add: vec_at_def cross_boxes cross_share cross_sat record_intersection_def
        empty_state_def map_entry_def Let_def insert_commute fun_upd_twist all_null_replicate)

lemma cross_detect:
  "detect_pierced_faces_with_timing crossF crossV
     = Some (to_result \<lparr> intersecting_faces = {0, 1}, intersection_map = [0 \<mapsto> {1}, 1 \<mapsto> {0}] \<rparr>)"
proof -
  have "all_indices (length crossF) = [0, 1]" by (simp add: all_indices_def crossF_def)
  then show ?thesis
    by (simp add: detect_pierced_faces_with_timing_def cross_read Let_def cross_state
          del: query_all.simps)
qed

lemma cross_result:
  "detect_pierced_faces_with_timing crossF crossV = Some (faces, rmap) \<Longrightarrow>
   faces = [0, 1] \<and> entries rmap 0 = [1] \<and> entries rmap 1 = [0] \<and> dom rmap = {0, 1}"
  by (auto simp: cross_detect to_result_def entries_def split: if_splits)

section \<open>Witnesses for the full detection\<close>

theorem C2_witness:
  "valid_mesh crossV crossF
   \<and> (\<exists>faces rmap. detect_pierced_faces_with_timing crossF crossV = Some (faces, rmap)
        \<and> faces = [0, 1] \<and> entries rmap 0 = [1] \<and> entries rmap 1 = [0]
        \<and> set faces = dom rmap)"
proof -
  have v: "valid_mesh crossV crossF"
    by (simp add: valid_mesh_def valid_face_def crossV_def crossF_def)
  from C2_intersection_map_symmetric[OF v] obtain faces rmap where
    r: "detect_pierced_faces_with_timing crossF crossV = Some (faces, rmap)"
    and k: "set faces = dom rmap" by blast
  from cross_result[OF r] r k v show ?thesis by blast
qed

lemma square_triangles:
  "face_triangle squareV (squareF ! 0) = squareA" "face_triangle squareV (squareF ! 1) = squareB"
  by (simp_all add: squareV_def squareF_def squareA_def squareB_def face_triangle_def to_vec_def)

lemma square_share: "share_vertex squareA squareB"
  unfolding share_vertex_def vertices_def list_ex_Cons_iff list_ex_Nil_iff vertex_dist_less_EPSILON
  by (simp add: squareA_def squareB_def)

lemma square_touch:
  "intersects (compute_triangle_aabb squareA) (compute_triangle_aabb squareB)"
  "check_triangle_intersection squareA squareB"
  unfolding check_triangle_intersection_iff norm3d_less_ALMOST_ZERO
  by (simp_all add: squareA_def squareB_def raw_normal_def get_edges_def cross_def vec_sub_def
        isZero_def ALMOST_ZERO_def intervals_apart_def project_triangle_def dot_def Let_def
        intersects_def compute_triangle_aabb_def)

theorem C3_witness:
  "valid_mesh squareV squareF \<and> (0::nat) < length squareF \<and> (1::nat) < length squareF
   \<and> share_vertex (face_triangle squareV (squareF ! 0)) (face_triangle squareV (squareF ! 1))
   \<and> intersects (compute_triangle_aabb (face_triangle squareV (squareF ! 0)))
                 (compute_triangle_aabb (face_triangle squareV (squareF ! 1)))
   \<and> check_triangle_intersection (face_triangle squareV (squareF ! 0))
                                  (face_triangle squareV (squareF ! 1))
   \<and> (\<exists>faces rmap. detect_pierced_faces_with_timing squareF squareV = Some (faces, rmap)
        \<and> 1 \<notin> set (entries rmap 0) \<and> 0 \<notin> set (entries rmap 1))"
proof -
  have v: "valid_mesh squareV squareF"
    by (simp add: valid_mesh_def valid_face_def squareV_def squareF_def)
  have l0: "(0::nat) < length squareF" and l1: "(1::nat) < length squareF"
    by (simp_all add: squareF_def)
  have sh: "share_vertex (face_triangle squareV (squareF ! 0)) (face_triangle squareV (squareF ! 1))"
    unfolding square_triangles by (rule square_share)
  from C3_shared_vertex_pair_not_reported[OF v l0 l1 sh]
  have "\<exists>faces rmap. detect_pierced_faces_with_timing squareF squareV = Some (faces, rmap)
        \<and> 1 \<notin> set (entries rmap 0) \<and> 0 \<notin> set (entries rmap 1)"
    by auto
  with v l0 l1 sh square_touch show ?thesis
    unfolding square_triangles by blast
qed

section \<open>Results about the persistent index\<close>

lemma cross_initialize:
  "initialize_spatial_index crossF crossV uninitialized = Some cross_index"
  by (simp add: initialize_spatial_index_def cross_read cross_root cross_index_def)
     (simp add: crossF_def crossV_def)

lemma cross_candidates: "collect_candidates cross_index [0, 7] [] = Some [0, 1, 7]"
  by (simp add: cross_index_def cand_insert_def vec_at_def Let_def node_bbox_def intersects_def
        compute_triangle_aabb_def crossA_def all_null_replicate)

lemma cross_local_loop:
  "local_loop [crossA, crossB] [compute_triangle_aabb crossA, compute_triangle_aabb crossB]
     [0, 7] [0, 1, 7] [0, 1, 7] empty_state = None"
  by (simp add: vec_at_def cross_boxes cross_share cross_sat)

lemma cross_index_sel:
  "persistent_triangles cross_index = [crossA, crossB]"
  "persistent_bboxes cross_index = [compute_triangle_aabb crossA, compute_triangle_aabb crossB]"
  "is_initialized cross_index"
  by (simp_all add: cross_index_def)

text \<open>Every target reaches the candidate set, checked or not, and a candidate outside the
  arrays stops the detection loop with an out-of-range read.\<close>

lemma cand_insert_mono: "set c \<subseteq> set (cand_insert i c)" "i \<in> set (cand_insert i c)"
  by (auto simp: cand_insert_def)

lemma fold_cand_insert_mono: "set c \<subseteq> set (fold cand_insert xs c)"
proof (induction xs arbitrary: c)
  case Nil
  then show ?case by simp
next
  case (Cons x xs)
  have "set c \<subseteq> set (cand_insert x c)" by (rule cand_insert_mono)
  also have "\<dots> \<subseteq> set (fold cand_insert xs (cand_insert x c))" by (rule Cons.IH)
  finally show ?case by simp
qed

lemma find_potential_mono:
  "set c \<subseteq> set (find_potential_intersections b node c)"
  "set c \<subseteq> set (find_in_children b chs c)"
proof (induction b node c and b chs c rule: find_potential_intersections_find_in_children.induct)
  case (1 face_bbox center sz depth idxs chs cands)
  then show ?case using fold_cand_insert_mono[of cands idxs] by auto
next
  case (2 face_bbox cands)
  then show ?case by simp
next
  case (3 face_bbox rest cands)
  then show ?case by simp
next
  case (4 face_bbox child rest cands)
  then show ?case by auto
qed

lemma collect_candidates_contains:
  "collect_candidates g ts c = Some c' \<Longrightarrow> set ts \<union> set c \<subseteq> set c'"
proof (induction ts arbitrary: c)
  case Nil
  then show ?case by simp
next
  case (Cons t ts)
  let ?c1 = "cand_insert t c"
  from Cons.prems obtain c2 where c2: "collect_candidates g ts c2 = Some c'" and sub: "set ?c1 \<subseteq> set c2"
    using find_potential_mono(1)[of ?c1]
    by (auto simp: Let_def split: if_splits option.splits)
  from Cons.IH[OF c2] sub cand_insert_mono[where c=c and i=t] show ?case by auto
qed

lemma local_loop_invalid:
  "t \<in> set idxs \<Longrightarrow> vec_at tris t = None \<Longrightarrow> local_loop tris bbs targets cands idxs st = None"
proof (induction idxs arbitrary: st)
  case Nil
  then show ?case by simp
next
  case (Cons i idxs)
  show ?case
  proof (cases "i = t")
    case True
    with Cons.prems show ?thesis by simp
  next
    case False
    with Cons.prems have "t \<in> set idxs" by simp
    from Cons.IH[OF this Cons.prems(2)] show ?thesis
      by (auto split: option.splits)
  qed
qed

lemma local_invalid_target_undefined:
  assumes "is_initialized g" and "t \<in> set target_faces"
    and "t < 0 \<or> t \<ge> int (length (persistent_triangles g))"
  shows "detect_pierced_faces_local F V target_faces g = None"
proof (cases "collect_candidates g target_faces []")
  case None
  with assms(1) show ?thesis by (simp add: detect_pierced_faces_local_def)
next
  case (Some cands)
  from collect_candidates_contains[OF Some] assms(2) have "t \<in> set cands" by auto
  moreover from assms(3) have "vec_at (persistent_triangles g) t = None"
    by (auto simp: vec_at_def)
  ultimately have "local_loop (persistent_triangles g) (persistent_bboxes g) target_faces cands cands
                     empty_state = None"
    by (rule local_loop_invalid)
  with assms(1) Some show ?thesis by (simp add: detect_pierced_faces_local_def)
qed

text \<open>
  C7 says that an entry of the target list outside \<open>[0, m)\<close> is skipped and that the call
  completes over the valid entries. \<open>detect_pierced_faces_local\<close> inserts every target into
  \<open>candidate_faces\<close> before it checks the range, and the detection loop then uses every
  candidate as an index: on the index of the two crossing triangles the targets \<open>[0, 7]\<close>
  give the candidates \<open>[0, 1, 7]\<close> and the loop reads \<open>persistent_bboxes[7]\<close> past the end of
  a vector of two entries (undefined behaviour, \<open>None\<close>); with the target \<open>[0]\<close> alone the
  call returns. Lemma \<open>local_invalid_target_undefined\<close> above is the general statement.
\<close>

theorem C7_local_detection_reads_invalid_target:
  "initialize_spatial_index crossF crossV uninitialized = Some cross_index
   \<and> collect_candidates cross_index [0, 7] [] = Some [0, 1, 7]
   \<and> vec_at (persistent_bboxes cross_index) 7 = None
   \<and> detect_pierced_faces_local crossF crossV [0, 7] cross_index = None
   \<and> (\<exists>r. detect_pierced_faces_local crossF crossV [0] cross_index = Some (r, cross_index))"
proof -
  have a: "detect_pierced_faces_local crossF crossV [0, 7] cross_index = None"
    by (simp add: detect_pierced_faces_local_def cross_candidates cross_index_sel cross_local_loop
          del: local_loop.simps collect_candidates.simps)
  have c0: "collect_candidates cross_index [0] [] = Some [0, 1]"
    by (simp add: cross_index_def cand_insert_def vec_at_def Let_def node_bbox_def intersects_def
        compute_triangle_aabb_def crossA_def all_null_replicate)
  have "\<exists>st. local_loop [crossA, crossB] [compute_triangle_aabb crossA, compute_triangle_aabb crossB]
     [0] [0, 1] [0, 1] empty_state = Some st"
    by (simp add: vec_at_def cross_boxes cross_share cross_sat)
  then have b: "\<exists>r. detect_pierced_faces_local crossF crossV [0] cross_index = Some (r, cross_index)"
    by (auto simp add: detect_pierced_faces_local_def c0 cross_index_sel
          simp del: local_loop.simps collect_candidates.simps)
  have "vec_at (persistent_bboxes cross_index) 7 = None"
    by (simp add: cross_index_def vec_at_def)
  with a b cross_initialize cross_candidates show ?thesis by blast
qed

text \<open>In \<open>update_spatial_index\<close> the range check does come first: the loop over the
  modified faces does the same with and without the entries outside \<open>[0, m)\<close>.\<close>

lemma update_faces_num_faces:
  "update_faces F V ms g = Some g' \<Longrightarrow> num_faces g' = num_faces g"
  by (induction ms arbitrary: g) (auto split: if_splits option.splits)

lemma update_faces_skips_invalid:
  "num_faces g = n \<Longrightarrow>
   update_faces F V (filter (\<lambda>i. 0 \<le> i \<and> i < int n) ms) g = update_faces F V ms g"
proof (induction ms arbitrary: g)
  case Nil
  then show ?case by simp
next
  case (Cons a ms)
  show ?case
  proof (cases "0 \<le> a \<and> a < int n")
    case False
    with Cons show ?thesis by auto
  next
    case True
    show ?thesis
    proof (cases "read_triangle V (F ! nat a)")
      case None
      with True Cons.prems show ?thesis by simp
    next
      case (Some tri)
      let ?g = "g\<lparr> persistent_triangles := (persistent_triangles g)[nat a := tri],
                   persistent_bboxes := (persistent_bboxes g)[nat a := compute_triangle_aabb tri] \<rparr>"
      have "num_faces ?g = n" using Cons.prems by simp
      from Cons.IH[OF this] True Cons.prems Some show ?thesis by simp
    qed
  qed
qed

text \<open>The rebuild threshold, however, counts every entry of the list: a list of invalid
  entries longer than a tenth of the face count replaces the octree by a fresh one.\<close>

lemma update_faces_all_invalid:
  "\<forall>i \<in> set ms. i < 0 \<or> i \<ge> int (num_faces g) \<Longrightarrow> update_faces F V ms g = Some g"
  by (induction ms) auto

lemma update_counts_invalid_entries:
  assumes "is_initialized g" and "num_faces g = length F" and "num_vertices g = length V"
    and "\<forall>i \<in> set ms. i < 0 \<or> i \<ge> int (num_faces g)"
    and "real (length ms) > real (num_faces g) * 0.1"
  shows "update_spatial_index F V ms g
           = Some (g\<lparr> persistent_octree := Some (build_root (persistent_triangles g)) \<rparr>)"
  using assms by (simp add: update_spatial_index_def update_faces_all_invalid)

section \<open>Local detection on all faces is exhaustive\<close>

lemma record_intersection_mono:
  "map_entry (intersection_map st) k \<subseteq> map_entry (intersection_map (record_intersection f g st)) k"
  unfolding record_intersection_map by auto

lemma record_intersection_adds:
  "g \<in> map_entry (intersection_map (record_intersection f g st)) f"
  unfolding record_intersection_map by auto

lemma leaf_loop_complete:
  assumes t1: "vec_at tris f = Some tri1" and b1: "vec_at bbs f = Some bbox1"
  shows "leaf_loop tris bbs f tri1 bbox1 idxs st = Some st' \<Longrightarrow>
     (\<forall>k. map_entry (intersection_map st) k \<subseteq> map_entry (intersection_map st') k) \<and>
     (\<forall>other \<in> set idxs. hit tris bbs f other \<longrightarrow> other \<noteq> f \<longrightarrow>
         other \<in> map_entry (intersection_map st') f)"
proof (induction idxs arbitrary: st)
  case Nil
  then show ?case by simp
next
  case (Cons other idxs)
  show ?case
  proof (cases "other = f")
    case True
    with Cons.prems have "leaf_loop tris bbs f tri1 bbox1 idxs st = Some st'" by simp
    from Cons.IH[OF this] True show ?thesis by auto
  next
    case False
    with Cons.prems obtain bbox2 where b2: "vec_at bbs other = Some bbox2"
      by (auto split: option.splits)
    show ?thesis
    proof (cases "intersects bbox1 bbox2")
      case nint: False
      with Cons.prems False b2 have run: "leaf_loop tris bbs f tri1 bbox1 idxs st = Some st'" by simp
      have "\<not> hit tris bbs f other"
        using nint t1 b1 b2 by (auto simp: hit_def pair_test_def split: option.splits)
      with Cons.IH[OF run] show ?thesis by auto
    next
      case int: True
      with Cons.prems False b2 obtain tri2 where t2: "vec_at tris other = Some tri2"
        by (auto split: option.splits)
      show ?thesis
      proof (cases "\<not> share_vertex tri1 tri2 \<and> check_triangle_intersection tri1 tri2")
        case True
        with Cons.prems False b2 int t2
        have run: "leaf_loop tris bbs f tri1 bbox1 idxs (record_intersection f other st) = Some st'"
          by simp
        from Cons.IH[OF run]
        have mono: "\<forall>k. map_entry (intersection_map (record_intersection f other st)) k
                        \<subseteq> map_entry (intersection_map st') k"
          and rest: "\<forall>x \<in> set idxs. hit tris bbs f x \<longrightarrow> x \<noteq> f \<longrightarrow>
                        x \<in> map_entry (intersection_map st') f" by blast+
        from mono record_intersection_adds[of other f st]
        have "other \<in> map_entry (intersection_map st') f" by blast
        moreover from mono record_intersection_mono[of st _ f other]
        have "\<forall>k. map_entry (intersection_map st) k \<subseteq> map_entry (intersection_map st') k"
          by blast
        ultimately show ?thesis using rest by auto
      next
        case nhit: False
        with Cons.prems False b2 int t2
        have run: "leaf_loop tris bbs f tri1 bbox1 idxs st = Some st'" by auto
        have "\<not> hit tris bbs f other"
          using nhit t1 b1 b2 t2 by (auto simp: hit_def pair_test_def)
        with Cons.IH[OF run] show ?thesis by auto
      qed
    qed
  qed
qed

lemma local_loop_complete:
  "local_loop tris bbs targets cands idxs st = Some st' \<Longrightarrow>
     (\<forall>k. map_entry (intersection_map st) k \<subseteq> map_entry (intersection_map st') k) \<and>
     (\<forall>f \<in> set idxs. f \<in> set targets \<longrightarrow>
        (\<forall>other \<in> set cands. hit tris bbs f other \<longrightarrow> other \<noteq> f \<longrightarrow>
            other \<in> map_entry (intersection_map st') f))"
proof (induction idxs arbitrary: st)
  case Nil
  then show ?case by simp
next
  case (Cons f idxs)
  from Cons.prems obtain tri1 bbox1 st1 where
    t1: "vec_at tris f = Some tri1" and b1: "vec_at bbs f = Some bbox1"
    and leaf: "leaf_loop tris bbs f tri1 bbox1 (if f \<in> set targets then cands else targets) st = Some st1"
    and run: "local_loop tris bbs targets cands idxs st1 = Some st'"
    by (auto split: option.splits)
  from leaf_loop_complete[OF t1 b1 leaf]
  have m1: "\<forall>k. map_entry (intersection_map st) k \<subseteq> map_entry (intersection_map st1) k"
    and c1: "f \<in> set targets \<longrightarrow> (\<forall>other \<in> set cands. hit tris bbs f other \<longrightarrow> other \<noteq> f \<longrightarrow>
         other \<in> map_entry (intersection_map st1) f)"
    by auto
  from Cons.IH[OF run]
  have m2: "\<forall>k. map_entry (intersection_map st1) k \<subseteq> map_entry (intersection_map st') k"
    and c2: "\<forall>f \<in> set idxs. f \<in> set targets \<longrightarrow>
        (\<forall>other \<in> set cands. hit tris bbs f other \<longrightarrow> other \<noteq> f \<longrightarrow>
            other \<in> map_entry (intersection_map st') f)"
    by blast+
  from m1 m2 have "\<forall>k. map_entry (intersection_map st) k \<subseteq> map_entry (intersection_map st') k"
    by blast
  moreover from c1 m2 have "f \<in> set targets \<longrightarrow> (\<forall>other \<in> set cands. hit tris bbs f other \<longrightarrow>
         other \<noteq> f \<longrightarrow> other \<in> map_entry (intersection_map st') f)"
    by blast
  ultimately show ?case using c2 by auto
qed

lemma fold_cand_insert_set: "set (fold cand_insert xs c) = set c \<union> set xs"
  by (induction xs arbitrary: c) (auto simp: cand_insert_def)

lemma find_potential_subset:
  "set (find_potential_intersections b node c) \<subseteq> set c \<union> tree_indices node"
  "set (find_in_children b chs c) \<subseteq> set c \<union> (\<Union>ch \<in> set chs. case ch of None \<Rightarrow> {} | Some n \<Rightarrow> tree_indices n)"
proof (induction b node c and b chs c rule: find_potential_intersections_find_in_children.induct)
  case (1 face_bbox center sz depth idxs chs cands)
  then show ?case by (auto simp: fold_cand_insert_set)
next
  case (2 face_bbox cands)
  then show ?case by simp
next
  case (3 face_bbox rest cands)
  then show ?case by auto
next
  case (4 face_bbox child rest cands)
  then show ?case by auto
qed

lemma collect_candidates_ok:
  assumes "length (persistent_bboxes g) = num_faces g" and "persistent_octree g = Some octree"
  shows "\<exists>c'. collect_candidates g ts c = Some c' \<and> set c' \<subseteq> set c \<union> set ts \<union> tree_indices octree"
proof (induction ts arbitrary: c)
  case Nil
  then show ?case by simp
next
  case (Cons t ts)
  let ?c1 = "cand_insert t c"
  have c1: "set ?c1 \<subseteq> set c \<union> {t}" by (auto simp: cand_insert_def)
  show ?case
  proof (cases "t < 0 \<or> t \<ge> int (num_faces g)")
    case True
    from Cons.IH[of ?c1] obtain c' where
      "collect_candidates g ts ?c1 = Some c'" "set c' \<subseteq> set ?c1 \<union> set ts \<union> tree_indices octree"
      by blast
    with True c1 show ?thesis by (auto simp: Let_def)
  next
    case False
    with assms(1) have b: "vec_at (persistent_bboxes g) t = Some (persistent_bboxes g ! nat t)"
      by (simp add: vec_at_def)
    let ?c2 = "find_potential_intersections (persistent_bboxes g ! nat t) octree ?c1"
    have c2: "set ?c2 \<subseteq> set c \<union> {t} \<union> tree_indices octree"
      using find_potential_subset(1)[of "persistent_bboxes g ! nat t" octree ?c1] c1 by blast
    from Cons.IH[of ?c2] obtain c' where
      "collect_candidates g ts ?c2 = Some c'" "set c' \<subseteq> set ?c2 \<union> set ts \<union> tree_indices octree"
      by blast
    with False b c2 assms(2) show ?thesis by (auto simp: Let_def)
  qed
qed

lemma local_loop_ok:
  assumes len: "length bbs = length tris"
    and cands: "\<forall>i \<in> set cands. 0 \<le> i \<and> i < int (length tris)"
    and targets: "\<forall>i \<in> set targets. 0 \<le> i \<and> i < int (length tris)"
  shows "\<forall>i \<in> set idxs. 0 \<le> i \<and> i < int (length tris) \<Longrightarrow> state_inv (hit tris bbs) st \<Longrightarrow>
         \<exists>st'. local_loop tris bbs targets cands idxs st = Some st' \<and> state_inv (hit tris bbs) st'"
proof (induction idxs arbitrary: st)
  case Nil
  then show ?case by simp
next
  case (Cons f idxs)
  from Cons.prems(1) len have f: "vec_at tris f = Some (tris ! nat f)" "vec_at bbs f = Some (bbs ! nat f)"
    and rest: "\<forall>i \<in> set idxs. 0 \<le> i \<and> i < int (length tris)"
    by (simp_all add: vec_at_def)
  let ?l = "if f \<in> set targets then cands else targets"
  have l: "\<forall>i \<in> set ?l. 0 \<le> i \<and> i < int (length tris)" using cands targets by simp
  from leaf_loop_ok[OF f len l Cons.prems(2)] obtain st1 where
    st1: "leaf_loop tris bbs f (tris ! nat f) (bbs ! nat f) ?l st = Some st1"
         "state_inv (hit tris bbs) st1" by blast
  from Cons.IH[OF rest st1(2)] obtain st' where
    "local_loop tris bbs targets cands idxs st1 = Some st'" "state_inv (hit tris bbs) st'" by blast
  with f st1(1) show ?case by simp
qed

lemma share_vertex_refl: "share_vertex t t"
  by (simp add: share_vertex_def vertices_def vertex_dist_def EPSILON_def)

lemma hit_irrefl: "\<not> hit tris bbs f f"
  by (auto simp: hit_def pair_test_def share_vertex_refl split: option.splits)

lemma hit_in_range: "hit tris bbs f g \<Longrightarrow> 0 \<le> f \<and> f < int (length tris) \<and> 0 \<le> g \<and> g < int (length tris)"
  by (auto simp: hit_def vec_at_def split: option.splits if_splits)

text \<open>On an index initialised from a mesh with valid indices, the local detection with all
  faces as targets returns, and its map holds exactly the pairs that pass the pair test in
  one of the two orders.\<close>

lemma local_all_exhaustive:
  assumes "valid_mesh V F"
  defines "tris \<equiv> map (face_triangle V) F"
  defines "bbs \<equiv> map compute_triangle_aabb tris"
  shows "\<exists>g st. initialize_spatial_index F V uninitialized = Some g
           \<and> detect_pierced_faces_local F V (all_indices (length F)) g = Some (to_result st, g)
           \<and> state_inv (hit tris bbs) st
           \<and> (\<forall>f other. other \<in> map_entry (intersection_map st) f
                  \<longleftrightarrow> hit tris bbs f other \<or> hit tris bbs other f)"
proof -
  let ?g = "\<lparr> persistent_octree = Some (build_root tris), persistent_triangles = tris,
              persistent_bboxes = bbs, is_initialized = True, num_faces = length F,
              num_vertices = length V \<rparr>"
  let ?all = "all_indices (length F)"
  have len: "length bbs = length tris" and lenF: "length tris = length F"
    by (simp_all add: bbs_def tris_def)
  have read: "read_triangles V F = Some tris"
    using assms(1) by (simp add: read_triangles_valid valid_mesh_def tris_def)
  then have init: "initialize_spatial_index F V uninitialized = Some ?g"
    by (simp add: initialize_spatial_index_def bbs_def)
  have all: "\<forall>i \<in> set ?all. 0 \<le> i \<and> i < int (length tris)"
    by (simp add: all_indices_range lenF)
  have "length (persistent_bboxes ?g) = num_faces ?g" "persistent_octree ?g = Some (build_root tris)"
    by (simp_all add: len lenF)
  from collect_candidates_ok[OF this, of ?all "[]"] obtain cands where
    cands: "collect_candidates ?g ?all [] = Some cands"
    and sub: "set cands \<subseteq> set [] \<union> set ?all \<union> tree_indices (build_root tris)" by blast
  from sub build_root_indices[of tris] all
  have cv: "\<forall>i \<in> set cands. 0 \<le> i \<and> i < int (length tris)" by auto
  from collect_candidates_contains[OF cands] have sup: "set ?all \<subseteq> set cands" by simp
  from local_loop_ok[OF len cv all cv state_inv_empty] obtain st where
    run: "local_loop tris bbs ?all cands cands empty_state = Some st"
    and inv: "state_inv (hit tris bbs) st" by blast
  have res: "detect_pierced_faces_local F V ?all ?g = Some (to_result st, ?g)"
    using cands run by (simp add: detect_pierced_faces_local_def)
  have complete: "\<And>f other. hit tris bbs f other \<Longrightarrow> other \<in> map_entry (intersection_map st) f"
  proof -
    fix f other assume h: "hit tris bbs f other"
    from hit_in_range[OF h] have "f \<in> set ?all" "other \<in> set ?all"
      by (simp_all add: all_indices_range lenF)
    with sup have "f \<in> set cands" "f \<in> set ?all" "other \<in> set cands" by auto
    moreover from h hit_irrefl have "other \<noteq> f" by auto
    ultimately show "other \<in> map_entry (intersection_map st) f"
      using local_loop_complete[OF run] h by blast
  qed
  have char: "\<forall>f other. other \<in> map_entry (intersection_map st) f
                  \<longleftrightarrow> hit tris bbs f other \<or> hit tris bbs other f"
  proof (intro allI iffI)
    fix f other assume "other \<in> map_entry (intersection_map st) f"
    with inv show "hit tris bbs f other \<or> hit tris bbs other f"
      unfolding state_inv_def by blast
  next
    fix f other assume "hit tris bbs f other \<or> hit tris bbs other f"
    then show "other \<in> map_entry (intersection_map st) f"
    proof
      assume "hit tris bbs f other"
      then show ?thesis by (rule complete)
    next
      assume "hit tris bbs other f"
      then have "f \<in> map_entry (intersection_map st) other" by (rule complete)
      with inv show ?thesis unfolding state_inv_def by blast
    qed
  qed
  from init res inv char show ?thesis by blast
qed

text \<open>Hence everything the full detection reports is reported by the local detection on
  all faces. The converse fails, as the mesh of 21 faces below shows.\<close>

lemma full_within_local_all:
  assumes "valid_mesh V F"
  shows "\<exists>g faces rmap faces' rmap'.
           initialize_spatial_index F V uninitialized = Some g
         \<and> detect_pierced_faces_local F V (all_indices (length F)) g = Some ((faces', rmap'), g)
         \<and> detect_pierced_faces_with_timing F V = Some (faces, rmap)
         \<and> set faces \<subseteq> set faces'
         \<and> (\<forall>f. set (entries rmap f) \<subseteq> set (entries rmap' f))"
proof -
  let ?tris = "map (face_triangle V) F"
  let ?bbs = "map compute_triangle_aabb ?tris"
  from local_all_exhaustive[OF assms] obtain g st where
    init: "initialize_spatial_index F V uninitialized = Some g"
    and loc: "detect_pierced_faces_local F V (all_indices (length F)) g = Some (to_result st, g)"
    and inv: "state_inv (hit ?tris ?bbs) st"
    and char: "\<forall>f other. other \<in> map_entry (intersection_map st) f
                  \<longleftrightarrow> hit ?tris ?bbs f other \<or> hit ?tris ?bbs other f" by blast
  from detect_state_ok[OF assms] obtain st0 where
    inv0: "state_inv (hit ?tris ?bbs) st0"
    and full: "detect_pierced_faces_with_timing F V = Some (to_result st0)" by blast
  have ent: "\<forall>f. map_entry (intersection_map st0) f \<subseteq> map_entry (intersection_map st) f"
    using inv0 char unfolding state_inv_def by blast
  have dom_iff: "\<And>s f. state_inv (hit ?tris ?bbs) s \<Longrightarrow>
      f \<in> intersecting_faces s \<longleftrightarrow> map_entry (intersection_map s) f \<noteq> {}"
    unfolding state_inv_def by (auto simp: map_entry_def split: option.splits)
  have faces: "intersecting_faces st0 \<subseteq> intersecting_faces st"
    using ent dom_iff[OF inv0] dom_iff[OF inv] by blast
  have "set (fst (to_result st0)) \<subseteq> set (fst (to_result st))"
    using faces by (simp add: to_result_faces[OF inv0] to_result_faces[OF inv])
  moreover have "\<forall>f. set (entries (snd (to_result st0)) f) \<subseteq> set (entries (snd (to_result st)) f)"
    using ent by (simp add: to_result_entries[OF inv0] to_result_entries[OF inv])
  ultimately show ?thesis
    using init loc full by (cases "to_result st0"; cases "to_result st") auto
qed

section \<open>Local detection on all faces against the full detection\<close>

lemma read_triangles_replicate:
  "read_triangle V f = Some t \<Longrightarrow> read_triangles V (replicate n f) = Some (replicate n t)"
  by (induction n) simp_all

lemma pierce_read: "read_triangles pierceV pierceF = Some pierce_tris"
proof -
  have "read_triangle pierceV (6, 7, 8) = Some pierceH"
    by (simp add: read_triangle_def vertex_at_def pierceV_def pierceH_def to_vec_def)
  from read_triangles_replicate[OF this, of 19] show ?thesis
    by (simp add: pierceF_def pierce_tris_def read_triangle_def vertex_at_def pierceV_def
          pierceA_def pierceB_def to_vec_def)
qed

lemma pierce_boxes: "map compute_triangle_aabb pierce_tris = pierce_bbs"
  by (simp add: pierce_tris_def pierce_bbs_def compute_triangle_aabb_def pierceA_def pierceB_def
        pierceH_def boxA_def boxB_def boxH_def)

lemma replicate_numeral_Cons: "replicate (numeral k) x = x # replicate (pred_numeral k) x"
  by (simp add: numeral_eq_Suc)

lemma fold_replicate_idem:
  "f x (f x b) = f x b \<Longrightarrow> fold f (replicate (Suc n) x) b = f x b"
  by (induction n) simp_all

lemma pierce_bounds:
  "mesh_bounds pierce_tris = (Vector3d (-10) (-10) (-1), Vector3d 10 10 1)"
proof -
  let ?b2 = "fold (\<lambda>tri b. fold extend_bounds (vertices tri) b) [pierceA, pierceB]
       (Vector3d DBL_MAX DBL_MAX DBL_MAX, Vector3d (- DBL_MAX) (- DBL_MAX) (- DBL_MAX))"
  have b2: "?b2 = (Vector3d (-5) (-10) (-1), Vector3d 10 5 1)"
    by (simp add: vertices_def extend_bounds_def pierceA_def pierceB_def DBL_MAX_def)
  have h: "fold (\<lambda>tri b. fold extend_bounds (vertices tri) b) (replicate (Suc 18) pierceH)
             (Vector3d (-5) (-10) (-1), Vector3d 10 5 1)
           = (Vector3d (-10) (-10) (-1), Vector3d 10 10 1)"
    by (subst fold_replicate_idem) (simp_all add: vertices_def extend_bounds_def pierceH_def)
  have "mesh_bounds pierce_tris =
        fold (\<lambda>tri b. fold extend_bounds (vertices tri) b) (replicate 19 pierceH) ?b2"
    by (simp add: mesh_bounds_def pierce_tris_def)
  also have "\<dots> = (Vector3d (-10) (-10) (-1), Vector3d 10 10 1)"
    unfolding b2 using h by simp
  finally show ?thesis .
qed


lemma pierce_nth:
  "pierce_tris ! 0 = pierceA" "pierce_tris ! Suc 0 = pierceB"
  "2 \<le> j \<Longrightarrow> j < 21 \<Longrightarrow> pierce_tris ! j = pierceH"
proof -
  show "pierce_tris ! 0 = pierceA" "pierce_tris ! Suc 0 = pierceB"
    by (simp_all add: pierce_tris_def)
  assume "2 \<le> j" "j < 21"
  then have "j = Suc (Suc (j - 2))" "j - 2 < 19" by arith+
  then obtain k where "j = Suc (Suc k)" "k < 19" by blast
  then show "pierce_tris ! j = pierceH" by (simp add: pierce_tris_def)
qed


lemma pierce_octants:
  "get_octant (Vector3d 0 0 0) (tri_center pierceA) = 4"
  "get_octant (Vector3d 0 0 0) (tri_center pierceB) = 7"
  "get_octant (Vector3d 0 0 0) (tri_center pierceH) = 6"
  by (simp_all add: get_octant_def tri_center_def pierceA_def pierceB_def pierceH_def)

lemma all_indices_21: "all_indices 21 = 0 # 1 # map int [2..<21]"
  by (simp add: all_indices_def upt_conv_Cons)

lemma pierce_filter:
  "filter (\<lambda>face_idx. get_octant (Vector3d 0 0 0) (tri_center (pierce_tris ! nat face_idx)) = k)
     (all_indices 21)
   = (if k = 4 then [0] else if k = 7 then [1] else if k = 6 then map int [2..<21] else [])"
proof -
  have H: "\<And>i. i \<in> set (map int [2..<21]) \<Longrightarrow>
     get_octant (Vector3d 0 0 0) (tri_center (pierce_tris ! nat i)) = 6"
    by (auto simp: pierce_nth pierce_octants)
  have 6: "filter (\<lambda>face_idx. get_octant (Vector3d 0 0 0) (tri_center (pierce_tris ! nat face_idx)) = 6)
             (map int [2..<21]) = map int [2..<21]"
    by (rule filter_True) (use H in blast)
  have n6: "k \<noteq> 6 \<Longrightarrow>
     filter (\<lambda>face_idx. get_octant (Vector3d 0 0 0) (tri_center (pierce_tris ! nat face_idx)) = k)
             (map int [2..<21]) = []"
    by (rule filter_False) (use H in auto)
  show ?thesis
    unfolding all_indices_21
    using 6 n6 by (auto simp: pierce_nth pierce_octants simp del: upt_Suc map_upt_Suc)
qed

lemma pierce_build: "build_root pierce_tris = pierce_root"
proof -
  have len: "length pierce_tris = 21" by (simp add: pierce_tris_def)
  have l21: "length (all_indices 21) = 21" by (simp add: all_indices_def)
  have l19: "length (map int [2..<21]) = 19" by simp
  have leaf: "\<And>idxs c s. int (length idxs) \<le> 20 \<Longrightarrow>
      build_octree pierce_tris idxs c s 1 8 20 = OctreeNode c s 1 idxs (replicate 8 None)"
    by (subst build_octree.simps) simp
  show ?thesis
    unfolding build_root_def pierce_bounds len
    apply (simp add: Let_def del: upt_Suc map_upt_Suc)
    apply (subst build_octree.simps)
    apply (simp only: l21 pierce_filter Let_def)
    apply (simp add: octants_def leaf child_center_of_def pierce_root_def filler_indices_def
             del: upt_Suc map_upt_Suc)
    done
qed


lemma leaf_loop_no_hit:
  "(\<And>other. other \<in> set idxs \<Longrightarrow> other \<noteq> face_idx \<Longrightarrow>
      \<exists>b2 t2. vec_at bbs other = Some b2 \<and> vec_at tris other = Some t2 \<and>
              \<not> pair_test tri1 bbox1 t2 b2) \<Longrightarrow>
   leaf_loop tris bbs face_idx tri1 bbox1 idxs st = Some st"
proof (induction idxs)
  case Nil
  then show ?case by simp
next
  case (Cons other idxs)
  have rest: "leaf_loop tris bbs face_idx tri1 bbox1 idxs st = Some st"
    using Cons by simp
  show ?case
  proof (cases "other = face_idx")
    case True
    with rest show ?thesis by simp
  next
    case False
    with Cons.prems[of other] obtain b2 t2 where
      "vec_at bbs other = Some b2" "vec_at tris other = Some t2" "\<not> pair_test tri1 bbox1 t2 b2"
      by auto
    with False rest show ?thesis by (auto simp: pair_test_def)
  qed
qed

lemma pierce_vec_at:
  "vec_at pierce_tris 0 = Some pierceA" "vec_at pierce_tris 1 = Some pierceB"
  "vec_at pierce_bbs 0 = Some boxA" "vec_at pierce_bbs 1 = Some boxB"
  by (simp_all add: vec_at_def pierce_tris_def pierce_bbs_def)

lemma pierce_vec_at_H:
  assumes "2 \<le> i" "i < 21"
  shows "vec_at pierce_tris i = Some pierceH" "vec_at pierce_bbs i = Some boxH"
proof -
  from assms have "nat i = Suc (Suc (nat i - 2))" "nat i - 2 < 19" by arith+
  then obtain k where k: "nat i = Suc (Suc k)" "k < 19" by blast
  with assms show "vec_at pierce_tris i = Some pierceH" "vec_at pierce_bbs i = Some boxH"
    by (simp_all add: vec_at_def pierce_tris_def pierce_bbs_def)
qed

lemma pierce_box_pairs:
  "\<not> intersects boxA boxH" "\<not> intersects boxB boxH"
  "\<not> intersects boxH boxA" "\<not> intersects boxH boxB"
  "intersects boxA boxB" "intersects boxB boxA"
  by (simp_all add: intersects_def boxA_def boxB_def boxH_def)

lemma pierce_pairs:
  "\<not> pair_test pierceA boxA pierceH boxH" "\<not> pair_test pierceB boxB pierceH boxH"
  "\<not> pair_test pierceH boxH pierceA boxA" "\<not> pair_test pierceH boxH pierceB boxB"
  by (simp_all add: pair_test_def pierce_box_pairs)

lemma pierce_pair_HH: "\<not> pair_test pierceH boxH pierceH boxH"
proof -
  have "share_vertex pierceH pierceH"
    unfolding share_vertex_def vertices_def list_ex_Cons_iff list_ex_Nil_iff vertex_dist_less_EPSILON
    by simp
  then show ?thesis by (simp add: pair_test_def)
qed

lemma pierce_AB:
  "\<not> share_vertex pierceA pierceB" "\<not> share_vertex pierceB pierceA"
  "check_triangle_intersection pierceA pierceB" "check_triangle_intersection pierceB pierceA"
proof -
  show "\<not> share_vertex pierceA pierceB" "\<not> share_vertex pierceB pierceA"
    unfolding share_vertex_def vertices_def list_ex_Cons_iff list_ex_Nil_iff vertex_dist_less_EPSILON
    by (simp_all add: pierceA_def pierceB_def)
  show "check_triangle_intersection pierceA pierceB" "check_triangle_intersection pierceB pierceA"
    unfolding check_triangle_intersection_iff norm3d_less_ALMOST_ZERO
    by (simp_all add: pierceA_def pierceB_def raw_normal_def get_edges_def cross_def vec_sub_def
          isZero_def ALMOST_ZERO_def intervals_apart_def project_triangle_def dot_def Let_def)
qed

lemma pierce_pair_AB: "pair_test pierceA boxA pierceB boxB" "pair_test pierceB boxB pierceA boxA"
proof -
  have s: "\<not> share_vertex pierceA pierceB" "\<not> share_vertex pierceB pierceA"
    unfolding share_vertex_def vertices_def list_ex_Cons_iff list_ex_Nil_iff vertex_dist_less_EPSILON
    by (simp_all add: pierceA_def pierceB_def)
  have c: "check_triangle_intersection pierceA pierceB" "check_triangle_intersection pierceB pierceA"
    unfolding check_triangle_intersection_iff norm3d_less_ALMOST_ZERO
    by (simp_all add: pierceA_def pierceB_def raw_normal_def get_edges_def cross_def vec_sub_def
          isZero_def ALMOST_ZERO_def intervals_apart_def project_triangle_def dot_def Let_def)
  have b: "intersects boxA boxB" "intersects boxB boxA"
    by (simp_all add: intersects_def boxA_def boxB_def)
  from s c b show "pair_test pierceA boxA pierceB boxB" "pair_test pierceB boxB pierceA boxA"
    by (simp_all add: pair_test_def)
qed


lemma in_filler: "other \<in> set filler_indices \<Longrightarrow> 2 \<le> other \<and> other < 21"
  by (auto simp: filler_indices_def)

lemma pierce_leaf6:
  "leaf_loop pierce_tris pierce_bbs 0 pierceA boxA filler_indices st = Some st"
  "leaf_loop pierce_tris pierce_bbs 1 pierceB boxB filler_indices st = Some st"
  "leaf_loop pierce_tris pierce_bbs i pierceH boxH filler_indices st = Some st"
  by (rule leaf_loop_no_hit,
      use pierce_vec_at_H pierce_pairs pierce_pair_HH in \<open>blast dest: in_filler\<close>)+

lemma pierce_child_boxes:
  "intersects boxA (child_bbox (Vector3d 0 0 0) (101 / 10) k) \<longleftrightarrow> \<not> odd k"
  "intersects boxB (child_bbox (Vector3d 0 0 0) (101 / 10) k) \<longleftrightarrow> odd (k div 2)"
  "intersects boxH (child_bbox (Vector3d 0 0 0) (101 / 10) k) \<longleftrightarrow> \<not> odd k \<and> odd (k div 2)"
  by (simp_all add: intersects_def child_bbox_def child_center_of_def boxA_def boxB_def boxH_def
        Let_def)

lemma pierce_query_A: "query_octree pierce_tris pierce_bbs pierce_root 0 st = Some st"
  unfolding pierce_root_def
  by (simp add: pierce_vec_at all_null_replicate pierce_leaf6 pierce_child_boxes)

lemma pierce_query_B: "query_octree pierce_tris pierce_bbs pierce_root 1 st = Some st"
  unfolding pierce_root_def
  by (simp add: pierce_vec_at all_null_replicate pierce_leaf6 pierce_child_boxes)

lemma pierce_query_H:
  "2 \<le> i \<Longrightarrow> i < 21 \<Longrightarrow> query_octree pierce_tris pierce_bbs pierce_root i st = Some st"
  unfolding pierce_root_def
  by (simp add: pierce_vec_at_H all_null_replicate pierce_leaf6 pierce_child_boxes)

lemma query_all_unchanged:
  "(\<And>i. i \<in> set idxs \<Longrightarrow> query_octree tris bbs octree i st = Some st) \<Longrightarrow>
   query_all tris bbs octree idxs st = Some st"
  by (induction idxs) simp_all

lemma pierce_query_all:
  "query_all pierce_tris pierce_bbs pierce_root (all_indices 21) empty_state = Some empty_state"
proof (rule query_all_unchanged)
  fix i assume "i \<in> set (all_indices 21)"
  then have "i = 0 \<or> i = 1 \<or> (2 \<le> i \<and> i < 21)"
    unfolding all_indices_21 by auto
  then show "query_octree pierce_tris pierce_bbs pierce_root i empty_state = Some empty_state"
    using pierce_query_A pierce_query_B pierce_query_H by blast
qed

lemma pierce_full:
  "detect_pierced_faces_with_timing pierceF pierceV = Some (to_result empty_state)"
proof -
  have "length pierceF = 21" by (simp add: pierceF_def)
  then show ?thesis
    by (simp add: detect_pierced_faces_with_timing_def pierce_read pierce_boxes pierce_build
          pierce_query_all Let_def del: query_all.simps)
qed


lemma pierce_initialize:
  "initialize_spatial_index pierceF pierceV uninitialized = Some pierce_index"
  by (simp add: initialize_spatial_index_def pierce_read pierce_boxes pierce_build pierce_index_def)
     (simp add: pierceF_def pierceV_def)

lemma pierce_node_boxes:
  "intersects boxA (node_bbox (Vector3d 0 0 0) (101 / 5))"
  "intersects boxB (node_bbox (Vector3d 0 0 0) (101 / 5))"
  "intersects boxH (node_bbox (Vector3d 0 0 0) (101 / 5))"
  "\<not> intersects boxA (node_bbox (Vector3d (- (101 / 10)) (- (101 / 10)) (101 / 10)) (101 / 10))"
  "\<not> intersects boxA (node_bbox (Vector3d (- (101 / 10)) (101 / 10) (101 / 10)) (101 / 10))"
  "\<not> intersects boxA (node_bbox (Vector3d (101 / 10) (101 / 10) (101 / 10)) (101 / 10))"
  "\<not> intersects boxB (node_bbox (Vector3d (- (101 / 10)) (- (101 / 10)) (101 / 10)) (101 / 10))"
  "\<not> intersects boxB (node_bbox (Vector3d (- (101 / 10)) (101 / 10) (101 / 10)) (101 / 10))"
  "\<not> intersects boxB (node_bbox (Vector3d (101 / 10) (101 / 10) (101 / 10)) (101 / 10))"
  "\<not> intersects boxH (node_bbox (Vector3d (- (101 / 10)) (- (101 / 10)) (101 / 10)) (101 / 10))"
  "\<not> intersects boxH (node_bbox (Vector3d (- (101 / 10)) (101 / 10) (101 / 10)) (101 / 10))"
  "\<not> intersects boxH (node_bbox (Vector3d (101 / 10) (101 / 10) (101 / 10)) (101 / 10))"
  by (simp_all add: intersects_def node_bbox_def boxA_def boxB_def boxH_def)

lemma pierce_find:
  "find_potential_intersections boxA pierce_root cands = cands"
  "find_potential_intersections boxB pierce_root cands = cands"
  "find_potential_intersections boxH pierce_root cands = cands"
  unfolding pierce_root_def by (simp_all add: pierce_node_boxes)

lemma fold_cand_insert_fresh:
  "distinct xs \<Longrightarrow> set xs \<inter> set cands = {} \<Longrightarrow> fold cand_insert xs cands = cands @ xs"
  by (induction xs arbitrary: cands) (auto simp: cand_insert_def)

lemma collect_candidates_no_octree_hits:
  assumes "\<And>t. t \<in> set ts \<Longrightarrow> 0 \<le> t \<and> t < int (num_faces g) \<and>
             (\<exists>b root. vec_at (persistent_bboxes g) t = Some b \<and> persistent_octree g = Some root \<and>
                  (\<forall>c. find_potential_intersections b root c = c))"
  shows "collect_candidates g ts cands = Some (fold cand_insert ts cands)"
  using assms
proof (induction ts arbitrary: cands)
  case Nil
  then show ?case by simp
next
  case (Cons t ts)
  from Cons.prems[of t] obtain b root where
    t: "0 \<le> t" "t < int (num_faces g)" "vec_at (persistent_bboxes g) t = Some b"
       "persistent_octree g = Some root" "\<forall>c. find_potential_intersections b root c = c"
    by auto
  have "collect_candidates g ts (cand_insert t cands) = Some (fold cand_insert ts (cand_insert t cands))"
    using Cons.IH[of "cand_insert t cands"] Cons.prems by simp
  with t show ?case by (simp add: Let_def)
qed

lemma pierce_candidates:
  "collect_candidates pierce_index (all_indices 21) [] = Some (all_indices 21)"
proof -
  have "collect_candidates pierce_index (all_indices 21) [] = Some (fold cand_insert (all_indices 21) [])"
  proof (rule collect_candidates_no_octree_hits)
    fix t assume "t \<in> set (all_indices 21)"
    then have c: "t = 0 \<or> t = 1 \<or> (2 \<le> t \<and> t < 21)"
      unfolding all_indices_21 by auto
    then have r: "0 \<le> t \<and> t < int (num_faces pierce_index)"
      by (auto simp: pierce_index_def)
    from c have "\<exists>b. vec_at pierce_bbs t = Some b \<and> (\<forall>c. find_potential_intersections b pierce_root c = c)"
      using pierce_vec_at pierce_vec_at_H pierce_find by blast
    with r show "0 \<le> t \<and> t < int (num_faces pierce_index) \<and>
             (\<exists>b root. vec_at (persistent_bboxes pierce_index) t = Some b \<and>
                  persistent_octree pierce_index = Some root \<and>
                  (\<forall>c. find_potential_intersections b root c = c))"
      by (simp add: pierce_index_def)
  qed
  moreover have "distinct (all_indices 21)"
    by (simp add: all_indices_def distinct_map inj_on_def)
  ultimately show ?thesis by (simp add: fold_cand_insert_fresh)
qed


lemma pierce_leaf_all:
  "leaf_loop pierce_tris pierce_bbs 0 pierceA boxA (all_indices 21) st = Some (record_intersection 0 1 st)"
  "leaf_loop pierce_tris pierce_bbs 1 pierceB boxB (all_indices 21) st = Some (record_intersection 1 0 st)"
  "2 \<le> i \<Longrightarrow> leaf_loop pierce_tris pierce_bbs i pierceH boxH (all_indices 21) st = Some st"
  unfolding all_indices_21 filler_indices_def[symmetric]
  by (simp_all add: pierce_vec_at pierce_leaf6 pierce_box_pairs pierce_AB)

lemma local_loop_unchanged:
  "(\<And>i. i \<in> set idxs \<Longrightarrow> \<exists>t b. vec_at tris i = Some t \<and> vec_at bbs i = Some b \<and>
        leaf_loop tris bbs i t b (if i \<in> set targets then cands else targets) st = Some st) \<Longrightarrow>
   local_loop tris bbs targets cands idxs st = Some st"
proof (induction idxs)
  case Nil
  then show ?case by simp
next
  case (Cons i idxs)
  from Cons.prems[of i] obtain t b where "vec_at tris i = Some t" "vec_at bbs i = Some b"
    "leaf_loop tris bbs i t b (if i \<in> set targets then cands else targets) st = Some st"
    by auto
  moreover have "local_loop tris bbs targets cands idxs st = Some st"
    using Cons by simp
  ultimately show ?case by simp
qed

lemma pierce_local_loop:
  "local_loop pierce_tris pierce_bbs (all_indices 21) (all_indices 21) (all_indices 21) empty_state
   = Some (record_intersection 1 0 (record_intersection 0 1 empty_state))"
proof -
  let ?st = "record_intersection 1 0 (record_intersection 0 1 empty_state)"
  have rest: "local_loop pierce_tris pierce_bbs (all_indices 21) (all_indices 21) filler_indices ?st
              = Some ?st"
  proof (rule local_loop_unchanged)
    fix i assume i: "i \<in> set filler_indices"
    then have r: "2 \<le> i" "i < 21" using in_filler by blast+
    then have "i \<in> set (all_indices 21)" by (simp add: all_indices_range)
    with r pierce_vec_at_H[OF r] pierce_leaf_all(3)[OF r(1)]
    show "\<exists>t b. vec_at pierce_tris i = Some t \<and> vec_at pierce_bbs i = Some b \<and>
        leaf_loop pierce_tris pierce_bbs i t b
          (if i \<in> set (all_indices 21) then all_indices 21 else all_indices 21) ?st = Some ?st"
      by simp
  qed
  have m: "(0::int) \<in> set (all_indices 21)" "(1::int) \<in> set (all_indices 21)"
    by (simp_all add: all_indices_range)
  have "local_loop pierce_tris pierce_bbs (all_indices 21) (all_indices 21)
          (0 # 1 # filler_indices) empty_state = Some ?st"
    by (simp add: pierce_vec_at pierce_leaf_all m rest)
  then show ?thesis
    by (simp add: all_indices_21 filler_indices_def del: local_loop.simps upt_Suc map_upt_Suc)
qed

lemma pierce_local_state:
  "record_intersection 1 0 (record_intersection 0 1 empty_state)
   = \<lparr> intersecting_faces = {0, 1}, intersection_map = [0 \<mapsto> {1}, 1 \<mapsto> {0}] \<rparr>"
  by (simp add: record_intersection_def empty_state_def map_entry_def Let_def insert_commute
        fun_upd_twist)

lemma pierce_local:
  "detect_pierced_faces_local pierceF pierceV (all_indices 21) pierce_index
   = Some (to_result \<lparr> intersecting_faces = {0, 1}, intersection_map = [0 \<mapsto> {1}, 1 \<mapsto> {0}] \<rparr>,
           pierce_index)"
proof -
  have sel: "is_initialized pierce_index" "persistent_triangles pierce_index = pierce_tris"
    "persistent_bboxes pierce_index = pierce_bbs"
    by (simp_all add: pierce_index_def)
  show ?thesis
    by (simp add: detect_pierced_faces_local_def sel pierce_candidates pierce_local_loop
          pierce_local_state del: local_loop.simps collect_candidates.simps)
qed

lemma to_result_values:
  "to_result empty_state = ([], Map.empty)"
  "to_result \<lparr> intersecting_faces = {0, 1}, intersection_map = [0 \<mapsto> {1}, 1 \<mapsto> {0}] \<rparr>
     = ([0, 1], [0 \<mapsto> [1], 1 \<mapsto> [0]])"
  by (auto simp: to_result_def empty_state_def fun_eq_iff)

lemma pierce_common_point:
  "barycentric (1 / 10) (1 / 10) (4 / 5) pierceA = Vector3d (-2) 2 0"
  "barycentric (1 / 10) (1 / 10) (4 / 5) pierceB = Vector3d (-2) 2 0"
  by (simp_all add: barycentric_def pierceA_def pierceB_def)

text \<open>
  C1 says that after \<open>initialize_spatial_index\<close> a local detection on all faces returns what
  the full detection returns. On the mesh above the local detection, which tests every target
  against every candidate, reports the faces 0 and 1, each mapped to the other. The full
  detection returns nothing: the octree stores a face only in the cell of its centroid
  (cells 4 and 7 of the root for faces 0 and 1), and the box of face 0 does not reach cell 7
  nor the box of face 1 cell 4, so neither query meets the other face.
\<close>

theorem C1_full_detection_misses_pair:
  "initialize_spatial_index pierceF pierceV uninitialized = Some pierce_index
   \<and> detect_pierced_faces_local pierceF pierceV (all_indices 21) pierce_index
       = Some (([0, 1], [0 \<mapsto> [1], 1 \<mapsto> [0]]), pierce_index)
   \<and> detect_pierced_faces_with_timing pierceF pierceV = Some ([], Map.empty)"
  using pierce_initialize pierce_local pierce_full by (simp add: to_result_values)

end
